theory Spec2Isabelle
  imports Complex_Main "HOL-Library.List_Lexorder" "HOL-Library.Char_ord"
begin

section \<open>The calibration script \<^verbatim>\<open>run.mjs\<close> as functions on an explicit world\<close>

text \<open>
  The script talks to a light fixture over HTTP and to a key-value store on disk. Both are
  made explicit: the world is the list of requests sent so far together with the content of the
  store, and the fixture is a function from the requests sent so far (the last one being the
  request to answer) to a response. Every rejected promise is an \<open>Inl\<close> result; a call that
  never returns is \<open>None\<close>. Device codes are integers; where the script's arithmetic on
  doubles differs from arithmetic on integers or rationals (the midpoint of two large bounds,
  a fraction that is \<open>Infinity\<close>, a product that overflows) the difference is modelled. Console
  output and the 5 ms real-time wait are not part of the world.
\<close>

subsection \<open>Values\<close>

text \<open>
  A JavaScript value, as \<open>JSON.parse\<close> gives it or as a property read does (\<open>undefined\<close>).
  The numbers in the fixture's answers are pin levels, integers.
\<close>

datatype jsval =
    JUndefined
  | JNull
  | JBool bool
  | JNum int
  | JStr string
  | JArr "jsval list"
  | JObj "(string \<times> jsval) list"

text \<open>
  An element of a channel array: an integer, \<open>Infinity\<close>, \<open>-Infinity\<close>, \<open>NaN\<close>, or a hole
  left by extending the array.
\<close>

datatype cell = Num int | Infinity | MinusInfinity | NaN | Hole

text \<open>A double that is not \<open>NaN\<close>; a number that may be \<open>NaN\<close> is a \<open>double option\<close>.\<close>

datatype double = Finite rat | PosInfinity | NegInfinity

datatype error =
    TransportError
  | DeviceError string
  | ParseError
  | TypeError

subsection \<open>Requests, responses and the world\<close>

datatype request = PutLevel int | PutCtrl "cell list" | GetLimit

datatype payload = Malformed | Parsed jsval

datatype response = Unreachable | Reply bool string payload

type_synonym device = "request list \<Rightarrow> response"

record store =
  LIMITS :: "int option list option"
  LEVEL :: "int option"

record world =
  trace :: "request list"
  storage :: store

type_synonym 'a outcome = "(error + 'a) \<times> world"

definition api :: string where
  "api = ''http://192.168.68.112''"

fun digit :: "nat \<Rightarrow> char" where
  "digit n = ''0123456789'' ! (n mod 10)"

fun digits :: "nat \<Rightarrow> string" where
  "digits n = (if n < 10 then [digit n] else digits (n div 10) @ [digit n])"

text \<open>\<open>String(n)\<close> for an integer \<open>n\<close>.\<close>

definition toString :: "int \<Rightarrow> string" where
  "toString n = (if n < 0 then CHR ''-'' # digits (nat (- n)) else digits (nat n))"

fun cellString :: "cell \<Rightarrow> string" where
  "cellString (Num n) = toString n"
| "cellString Infinity = ''Infinity''"
| "cellString MinusInfinity = ''-Infinity''"
| "cellString NaN = ''NaN''"
| "cellString Hole = ''''"

fun join :: "string list \<Rightarrow> string" where
  "join [] = ''''"
| "join [s] = s"
| "join (s # t # ss) = s @ '','' @ join (t # ss)"

fun url :: "request \<Rightarrow> string" where
  "url (PutLevel l) = api @ ''/level''"
| "url (PutCtrl arr) = api @ ''/ctrl''"
| "url GetLimit = api @ ''/limit''"

fun body :: "request \<Rightarrow> string" where
  "body (PutLevel l) = ''L'' @ toString l"
| "body (PutCtrl arr) = ''W'' @ join (map cellString arr)"
| "body GetLimit = ''''"

text \<open>\<open>fetch\<close> sends the request and hands back what the fixture answers to it.\<close>

definition fetch :: "device \<Rightarrow> request \<Rightarrow> world \<Rightarrow> response \<times> world" where
  "fetch dev rq w = (let h = trace w @ [rq] in (dev h, w\<lparr>trace := h\<rparr>))"

text \<open>
  \<open>errorHandler\<close> passes a response with \<open>ok\<close> on and rejects any other with
  the status text and the URL. A \<open>fetch\<close> that is itself rejected never reaches the handler:
  its rejection is what the chain yields.
\<close>

fun errorHandler :: "request \<Rightarrow> response \<Rightarrow> error + payload" where
  "errorHandler rq Unreachable = Inl TransportError"
| "errorHandler rq (Reply ok statusText p) =
     (if ok then Inr p else Inl (DeviceError (statusText @ '': '' @ url rq)))"

definition delay :: "nat \<Rightarrow> world \<Rightarrow> unit outcome" where
  "delay ms w = (Inr (), w)"

definition setLevel :: "device \<Rightarrow> int \<Rightarrow> world \<Rightarrow> unit outcome" where
  "setLevel dev lvl w =
     (case fetch dev (PutLevel lvl) w of (r, w1) \<Rightarrow>
        (case errorHandler (PutLevel lvl) r of
           Inl e \<Rightarrow> (Inl e, w1)
         | Inr _ \<Rightarrow> delay 5 w1))"

definition setChannels :: "device \<Rightarrow> cell list \<Rightarrow> world \<Rightarrow> unit outcome" where
  "setChannels dev arr w =
     (case fetch dev (PutCtrl arr) w of (r, w1) \<Rightarrow>
        (case errorHandler (PutCtrl arr) r of
           Inl e \<Rightarrow> (Inl e, w1)
         | Inr _ \<Rightarrow> delay 5 w1))"

definition channelKey :: "string list" where
  "channelKey = [''pin17'', ''pin16'', ''pin5'', ''pin19'']"

text \<open>
  \<open>j[channelKey[idx]]\<close>: past the end of \<open>channelKey\<close> the key is \<open>undefined\<close>, which names
  the property \<open>"undefined"\<close>. Reading a property of \<open>null\<close> throws; a field that is absent
  reads as \<open>undefined\<close>, and so does any such field of a value that is not an object.
\<close>

definition keyOf :: "nat \<Rightarrow> string" where
  "keyOf idx = (if idx < length channelKey then channelKey ! idx else ''undefined'')"

fun getProp :: "jsval \<Rightarrow> string \<Rightarrow> error + jsval" where
  "getProp JNull k = Inl TypeError"
| "getProp JUndefined k = Inl TypeError"
| "getProp (JObj fs) k = Inr (case map_of fs k of None \<Rightarrow> JUndefined | Some v \<Rightarrow> v)"
| "getProp v k = Inr JUndefined"

definition getLimitSignal :: "device \<Rightarrow> nat \<Rightarrow> world \<Rightarrow> bool outcome" where
  "getLimitSignal dev idx w =
     (case fetch dev GetLimit w of (r, w1) \<Rightarrow>
        (case errorHandler GetLimit r of
           Inl e \<Rightarrow> (Inl e, w1)
         | Inr Malformed \<Rightarrow> (Inl ParseError, w1)
         | Inr (Parsed j) \<Rightarrow>
             (case getProp j (keyOf idx) of
                Inl e \<Rightarrow> (Inl e, w1)
              | Inr v \<Rightarrow> (Inr (v \<noteq> JNum 0), w1))))"

text \<open>\<open>arr[idx] = value\<close> on \<open>[0, 0, 0, 0]\<close>; an index past the end extends the array.\<close>

definition channelValues :: "nat \<Rightarrow> int \<Rightarrow> cell list" where
  "channelValues idx v =
     (if idx < 4 then [Num 0, Num 0, Num 0, Num 0][idx := Num v]
      else [Num 0, Num 0, Num 0, Num 0] @ replicate (idx - 4) Hole @ [Num v])"

subsection \<open>The search\<close>

partial_function (option) findLimit ::
  "device \<Rightarrow> nat \<Rightarrow> int \<Rightarrow> int \<Rightarrow> world \<Rightarrow> int outcome option" where
  "findLimit dev idx lo hi w =
     (let mid = (lo + hi) div 2 in
      if mid = lo then Some (Inr lo, w)
      else
        (case setChannels dev (channelValues idx mid) w of
           (Inl e, w1) \<Rightarrow> Some (Inl e, w1)
         | (Inr _, w1) \<Rightarrow>
             (case getLimitSignal dev idx w1 of
                (Inl e, w2) \<Rightarrow> Some (Inl e, w2)
              | (Inr limit, w2) \<Rightarrow>
                  if limit then findLimit dev idx lo mid w2 else findLimit dev idx mid hi w2)))"

text \<open>
  \<open>findLimit\<close> above computes \<open>mid\<close> on the integers. The script computes
  \<open>Math.floor((lo+hi)/2)\<close> on doubles: the sum is rounded to the nearest double, ties to the
  even mantissa, and halving and \<open>Math.floor\<close> are then exact. \<open>ulp n\<close> is the distance
  between neighbouring doubles at the magnitude \<open>n \<ge> 0\<close> (sums beyond the largest double,
  which give \<open>Infinity\<close>, are not modelled). \<open>findLimitDouble\<close> is the search with this midpoint;
  the two searches agree for \<open>0 \<le> lo \<le> hi \<le> 2^52 + 1\<close>, in particular on 0..255.
\<close>

function ulp :: "int \<Rightarrow> int" where
  "ulp n = (if n < 2 ^ 53 then 1 else 2 * ulp (n div 2))"
  by pat_completeness auto
termination
  by (relation "measure nat") auto

declare ulp.simps [simp del]

definition roundAbs :: "int \<Rightarrow> int" where
  "roundAbs n =
     (let u = ulp n; q = n div u; r = n mod u
      in if 2 * r < u \<or> (2 * r = u \<and> even q) then q * u else (q + 1) * u)"

definition roundDouble :: "int \<Rightarrow> int" where
  "roundDouble s = (if s < 0 then - roundAbs (- s) else roundAbs s)"

definition midDouble :: "int \<Rightarrow> int \<Rightarrow> int" where
  "midDouble lo hi = roundDouble (lo + hi) div 2"

partial_function (option) findLimitDouble ::
  "device \<Rightarrow> nat \<Rightarrow> int \<Rightarrow> int \<Rightarrow> world \<Rightarrow> int outcome option" where
  "findLimitDouble dev idx lo hi w =
     (let mid = midDouble lo hi in
      if mid = lo then Some (Inr lo, w)
      else
        (case setChannels dev (channelValues idx mid) w of
           (Inl e, w1) \<Rightarrow> Some (Inl e, w1)
         | (Inr _, w1) \<Rightarrow>
             (case getLimitSignal dev idx w1 of
                (Inl e, w2) \<Rightarrow> Some (Inl e, w2)
              | (Inr limit, w2) \<Rightarrow>
                  if limit then findLimitDouble dev idx lo mid w2
                  else findLimitDouble dev idx mid hi w2)))"

text \<open>
  \<open>await\<close>: the rest of an async function runs on the value of a fulfilled promise; a
  rejection ends the function with that rejection, and a promise that never settles leaves
  it waiting for ever.
\<close>

definition await ::
  "'a outcome option \<Rightarrow> ('a \<Rightarrow> world \<Rightarrow> 'b outcome option) \<Rightarrow> 'b outcome option" where
  "await m f =
     (case m of
        None \<Rightarrow> None
      | Some (Inl e, w) \<Rightarrow> Some (Inl e, w)
      | Some (Inr x, w) \<Rightarrow> f x w)"

definition getLimits :: "device \<Rightarrow> world \<Rightarrow> (int \<times> int \<times> int \<times> int) outcome option" where
  "getLimits dev w =
     await (findLimit dev 0 0 255 w) (\<lambda>r w.
     await (findLimit dev 1 0 255 w) (\<lambda>g w.
     await (findLimit dev 2 0 255 w) (\<lambda>b w.
     await (findLimit dev 3 0 255 w) (\<lambda>wh w.
     Some (Inr (r, g, b, wh), w)))))"

subsection \<open>Aggregation and calibration\<close>

text \<open>
  \<open>a.sort()\<close> without a comparison function orders the elements by their string forms;
  an index past the end reads \<open>undefined\<close> (\<open>None\<close>).
\<close>

definition median :: "int list \<Rightarrow> int option" where
  "median a =
     (let mid = length a div 2; s = sort_key toString a
      in if mid < length s then Some (s ! mid) else None)"

type_synonym samples = "int list \<times> int list \<times> int list \<times> int list"

text \<open>The \<open>for\<close> loop of \<open>calib\<close>; the first number is how many iterations remain.\<close>

fun calibLoop :: "device \<Rightarrow> bool \<Rightarrow> nat \<Rightarrow> samples \<Rightarrow> world \<Rightarrow> samples outcome option" where
  "calibLoop dev lg 0 acc w = Some (Inr acc, w)"
| "calibLoop dev lg (Suc k) (rs, gs, bs, ws) w =
     await (getLimits dev w) (\<lambda>(r, g, b, wh) w1.
       calibLoop dev lg k (rs @ [r], gs @ [g], bs @ [b], ws @ [wh]) w1)"

definition setItemLIMITS :: "int option list \<Rightarrow> world \<Rightarrow> unit outcome" where
  "setItemLIMITS v w = (Inr (), w\<lparr>storage := (storage w)\<lparr>LIMITS := Some v\<rparr>\<rparr>)"

definition calib :: "device \<Rightarrow> nat \<Rightarrow> bool \<Rightarrow> world \<Rightarrow> int option list outcome option" where
  "calib dev n lg w =
     await (Some (setLevel dev 255 w)) (\<lambda>_ w1.
     await (calibLoop dev lg n ([], [], [], []) w1) (\<lambda>(rs, gs, bs, ws) w2.
     await (Some (setLevel dev 0 w2)) (\<lambda>_ w3.
     let limits = [median rs, median gs, median bs, median ws] in
     await (Some (setItemLIMITS limits w3)) (\<lambda>_ w4.
     Some (Inr limits, w4)))))"

subsection \<open>Driving the light\<close>

text \<open>\<open>level || d\<close>: a level that is absent or \<open>0\<close> is falsy and gives \<open>d\<close>.\<close>

definition orElse :: "int option \<Rightarrow> int \<Rightarrow> int" where
  "orElse level d = (case level of None \<Rightarrow> d | Some l \<Rightarrow> if l = 0 then d else l)"

definition initLevels :: "device \<Rightarrow> world \<Rightarrow> unit outcome" where
  "initLevels dev w = (let level = LEVEL (storage w) in setLevel dev (orElse level 255) w)"

text \<open>
  \<open>Math.floor(k*x)\<close>. The fraction is what \<open>parseFloat\<close> gave: a finite double, an infinity,
  or \<open>NaN\<close> (\<open>None\<close>). The limit is an element of the array \<open>calib\<close> returned or stored: a
  number, or \<open>undefined\<close> (\<open>None\<close>) for a channel without samples. \<open>rnd\<close> rounds the exact product of two finite numbers to the
  nearest double as if the exponent were unbounded; a rounded product beyond the largest
  finite double is an infinity. An infinity times \<open>0\<close> is \<open>NaN\<close>.
\<close>

definition maxDouble :: rat where
  "maxDouble = (2 ^ 53 - 1) * 2 ^ 971"

definition overflow :: "rat \<Rightarrow> double" where
  "overflow q =
     (if maxDouble < q then PosInfinity else if q < - maxDouble then NegInfinity else Finite q)"

fun multiply :: "(rat \<Rightarrow> rat) \<Rightarrow> double \<Rightarrow> int \<Rightarrow> double option" where
  "multiply rnd (Finite a) x = Some (overflow (rnd (a * of_int x)))"
| "multiply rnd PosInfinity x =
     (if 0 < x then Some PosInfinity else if x < 0 then Some NegInfinity else None)"
| "multiply rnd NegInfinity x =
     (if 0 < x then Some NegInfinity else if x < 0 then Some PosInfinity else None)"

fun floorCell :: "double option \<Rightarrow> cell" where
  "floorCell None = NaN"
| "floorCell (Some (Finite q)) = Num \<lfloor>q\<rfloor>"
| "floorCell (Some PosInfinity) = Infinity"
| "floorCell (Some NegInfinity) = MinusInfinity"

definition floorMul :: "(rat \<Rightarrow> rat) \<Rightarrow> double option \<Rightarrow> int option \<Rightarrow> cell" where
  "floorMul rnd k x =
     (case k of
        None \<Rightarrow> NaN
      | Some kv \<Rightarrow> (case x of None \<Rightarrow> NaN | Some xv \<Rightarrow> floorCell (multiply rnd kv xv)))"

definition element :: "int option list \<Rightarrow> nat \<Rightarrow> int option" where
  "element lims i = (if i < length lims then lims ! i else None)"

definition colour ::
  "(string \<Rightarrow> double option) \<Rightarrow> (rat \<Rightarrow> rat) \<Rightarrow> device \<Rightarrow> string list \<Rightarrow> int option list \<Rightarrow>
   world \<Rightarrow> unit outcome" where
  "colour parseFloat rnd dev argv lims w =
     (if length argv = 4 then
        (let k = parseFloat (argv ! 3)
         in setChannels dev (map (\<lambda>x. floorMul rnd k x) lims) w)
      else if length argv = 7 then
        (let r = parseFloat (argv ! 3); g = parseFloat (argv ! 4);
             b = parseFloat (argv ! 5); wh = parseFloat (argv ! 6);
             rl = element lims 0; gl = element lims 1; bl = element lims 2; wl = element lims 3
         in setChannels dev
              [floorMul rnd r rl, floorMul rnd g gl, floorMul rnd b bl, floorMul rnd wh wl] w)
      else (Inr (), w))"

text \<open>The top-level \<open>switch\<close> on \<open>process.argv[2]\<close>; \<open>argv\<close> is all of \<open>process.argv\<close>.\<close>

definition main ::
  "(string \<Rightarrow> double option) \<Rightarrow> (rat \<Rightarrow> rat) \<Rightarrow> device \<Rightarrow> string list \<Rightarrow> world \<Rightarrow>
   unit outcome option" where
  "main parseFloat rnd dev argv w =
     (let cmd = (if 2 < length argv then Some (argv ! 2) else None) in
      if cmd = Some ''long'' then
        await (calib dev 100 True w) (\<lambda>_ w1. Some (Inr (), w1))
      else if cmd = Some ''calib'' then
        await (calib dev 5 True w) (\<lambda>_ w1. Some (Inr (), w1))
      else if cmd = Some ''colour'' then
        await (case LIMITS (storage w) of
                 None \<Rightarrow> calib dev 5 True w
               | Some lims \<Rightarrow> Some (Inr lims, w)) (\<lambda>lims w1.
        await (Some (initLevels dev w1)) (\<lambda>_ w2.
        Some (colour parseFloat rnd dev argv lims w2)))
      else if cmd = Some ''white'' then
        await (Some (initLevels dev w)) (\<lambda>_ w1.
        Some (setChannels dev [Num 255, Num 255, Num 255, Num 255] w1))
      else if cmd = Some ''off'' then
        Some (setChannels dev [Num 0, Num 0, Num 0, Num 0] w)
      else Some (Inr (), w))"

subsection \<open>A simulated fixture\<close>

text \<open>
  The fixture of the specification's test scenarios: it accepts every command, remembers the
  channel codes last written, and reports for each pin whether the channel's trip signal
  \<open>trip c v\<close> is on at the code \<open>v\<close> the channel is driven with.
\<close>

definition driven :: "request list \<Rightarrow> cell list" where
  "driven h =
     fold (\<lambda>rq cur. case rq of PutCtrl arr \<Rightarrow> arr | _ \<Rightarrow> cur) h [Num 0, Num 0, Num 0, Num 0]"

definition code :: "cell list \<Rightarrow> nat \<Rightarrow> int" where
  "code arr c = (if c < length arr then (case arr ! c of Num v \<Rightarrow> v | _ \<Rightarrow> 0) else 0)"

definition pinLevels :: "(nat \<Rightarrow> int \<Rightarrow> bool) \<Rightarrow> cell list \<Rightarrow> jsval" where
  "pinLevels trip arr =
     JObj (map (\<lambda>c. (channelKey ! c, JNum (if trip c (code arr c) then 1 else 0))) [0, 1, 2, 3])"

definition simDevice :: "(nat \<Rightarrow> int \<Rightarrow> bool) \<Rightarrow> device" where
  "simDevice trip h =
     (if h = [] then Unreachable
      else (case last h of
              GetLimit \<Rightarrow> Reply True ''OK'' (Parsed (pinLevels trip (driven h)))
            | _ \<Rightarrow> Reply True ''OK'' Malformed))"

text \<open>A monotonic trip signal: channel \<open>c\<close> trips at every code above \<open>T ! c\<close>.\<close>

definition tripAbove :: "int list \<Rightarrow> nat \<Rightarrow> int \<Rightarrow> bool" where
  "tripAbove T c v = (c < length T \<and> T ! c < v)"

text \<open>The same fixture, except that it answers the command for level \<open>0\<close> with an error.\<close>

definition offFails :: "(nat \<Rightarrow> int \<Rightarrow> bool) \<Rightarrow> device" where
  "offFails trip h =
     (if h \<noteq> [] \<and> last h = PutLevel 0 then Reply False ''Internal Server Error'' Malformed
      else simDevice trip h)"

text \<open>A fixture that cannot be reached.\<close>

definition unreachable :: device where
  "unreachable h = Unreachable"

text \<open>A fixture that accepts every command but whose limit endpoint cannot be reached.\<close>

definition limitDown :: device where
  "limitDown h =
     (if h \<noteq> [] \<and> last h = GetLimit then Unreachable else Reply True ''OK'' Malformed)"

text \<open>A fixture whose limit status reports a single pin, \<open>pin16\<close>, and no other.\<close>

definition onePin :: device where
  "onePin h = Reply True ''OK'' (Parsed (JObj [(''pin16'', JNum 0)]))"

subsection \<open>Reading a trace\<close>

fun refused :: "response \<Rightarrow> bool" where
  "refused Unreachable = True"
| "refused (Reply ok statusText p) = (\<not> ok)"

text \<open>\<open>clean dev h evs\<close>: sent after \<open>h\<close>, none of the requests \<open>evs\<close> is refused.\<close>

fun clean :: "device \<Rightarrow> request list \<Rightarrow> request list \<Rightarrow> bool" where
  "clean dev h [] = True"
| "clean dev h (rq # evs) = (\<not> refused (dev (h @ [rq])) \<and> clean dev (h @ [rq]) evs)"

fun levelsSent :: "request list \<Rightarrow> int list" where
  "levelsSent [] = []"
| "levelsSent (PutLevel l # evs) = l # levelsSent evs"
| "levelsSent (rq # evs) = levelsSent evs"

text \<open>The requests of a search that probes the codes \<open>vs\<close> in turn: a write, then a read.\<close>

fun roundTrips :: "nat \<Rightarrow> int list \<Rightarrow> request list" where
  "roundTrips idx [] = []"
| "roundTrips idx (v # vs) = PutCtrl (channelValues idx v) # GetLimit # roundTrips idx vs"

text \<open>
  \<open>okRun dev h r evs\<close>: a call that sent \<open>evs\<close> after \<open>h\<close> and ended with \<open>r\<close> was refused
  nothing if it returned a value, and nothing before its last request if it was rejected.
\<close>

definition okRun :: "device \<Rightarrow> request list \<Rightarrow> error + 'a \<Rightarrow> request list \<Rightarrow> bool" where
  "okRun dev h r evs =
     (case r of Inr _ \<Rightarrow> clean dev h evs | Inl _ \<Rightarrow> evs \<noteq> [] \<and> clean dev h (butlast evs))"

text \<open>A quiet run: it returns, touches nothing but the trace, and sends no level command.\<close>

definition quiet :: "device \<Rightarrow> world \<Rightarrow> 'a outcome option \<Rightarrow> bool" where
  "quiet dev w m =
     (\<exists>r evs. m = Some (r, w\<lparr>trace := trace w @ evs\<rparr>) \<and> okRun dev (trace w) r evs \<and>
        levelsSent evs = [])"

text \<open>\<open>simulated trip dev\<close>: \<open>dev\<close> answers channel writes and limit reads as the simulated fixture does.\<close>

definition simulated :: "(nat \<Rightarrow> int \<Rightarrow> bool) \<Rightarrow> device \<Rightarrow> bool" where
  "simulated trip dev =
     ((\<forall>h arr. dev (h @ [PutCtrl arr]) = simDevice trip (h @ [PutCtrl arr])) \<and>
      (\<forall>h. dev (h @ [GetLimit]) = simDevice trip (h @ [GetLimit])))"



text \<open>A fresh session: nothing sent yet, nothing stored.\<close>

definition emptyWorld :: world where
  "emptyWorld = \<lparr>trace = [], storage = \<lparr>LIMITS = None, LEVEL = None\<rparr>\<rparr>"

section \<open>Facts about the device operations\<close>

lemma fetch_simps [simp]:
  "fetch dev rq w = (dev (trace w @ [rq]), w\<lparr>trace := trace w @ [rq]\<rparr>)"
  by (simp add: fetch_def Let_def)

lemma setChannels_run:
  "setChannels dev arr w =
     ((case errorHandler (PutCtrl arr) (dev (trace w @ [PutCtrl arr])) of Inl e \<Rightarrow> Inl e | Inr _ \<Rightarrow> Inr ()),
      w\<lparr>trace := trace w @ [PutCtrl arr]\<rparr>)"
  by (simp add: setChannels_def delay_def split: sum.splits)

lemma setLevel_run:
  "setLevel dev l w =
     ((case errorHandler (PutLevel l) (dev (trace w @ [PutLevel l])) of Inl e \<Rightarrow> Inl e | Inr _ \<Rightarrow> Inr ()),
      w\<lparr>trace := trace w @ [PutLevel l]\<rparr>)"
  by (simp add: setLevel_def delay_def split: sum.splits)

lemma getLimitSignal_world:
  "snd (getLimitSignal dev idx w) = w\<lparr>trace := trace w @ [GetLimit]\<rparr>"
  by (simp add: getLimitSignal_def split: sum.splits payload.splits)

lemma errorHandler_Inl: "(\<exists>e. errorHandler rq r = Inl e) = refused r"
  by (cases r) auto

lemma clean_append: "clean dev h (xs @ ys) = (clean dev h xs \<and> clean dev (h @ xs) ys)"
  by (induction xs arbitrary: h) auto

lemma okRun_seq:
  assumes "okRun dev h (Inr x) xs" and "okRun dev (h @ xs) r ys"
  shows "okRun dev h r (xs @ ys)"
proof (cases r)
  case (Inl e)
  with assms(2) have "ys \<noteq> []" and "clean dev (h @ xs) (butlast ys)"
    by (simp_all add: okRun_def)
  with assms(1) Inl show ?thesis
    by (simp add: okRun_def butlast_append clean_append)
next
  case (Inr v)
  with assms show ?thesis by (simp add: okRun_def clean_append)
qed

lemma setChannels_cases:
  obtains (fail) e where "setChannels dev arr w = (Inl e, w\<lparr>trace := trace w @ [PutCtrl arr]\<rparr>)"
  | (ok) "setChannels dev arr w = (Inr (), w\<lparr>trace := trace w @ [PutCtrl arr]\<rparr>)"
         "\<not> refused (dev (trace w @ [PutCtrl arr]))"
proof (cases "errorHandler (PutCtrl arr) (dev (trace w @ [PutCtrl arr]))")
  case (Inl e)
  then show ?thesis using fail by (simp add: setChannels_run)
next
  case (Inr p)
  moreover from Inr have "\<not> refused (dev (trace w @ [PutCtrl arr]))"
    using errorHandler_Inl [of "PutCtrl arr" "dev (trace w @ [PutCtrl arr])"] by simp
  ultimately show ?thesis using ok by (simp add: setChannels_run)
qed

lemma setLevel_cases:
  obtains (fail) e where "setLevel dev l w = (Inl e, w\<lparr>trace := trace w @ [PutLevel l]\<rparr>)"
  | (ok) "setLevel dev l w = (Inr (), w\<lparr>trace := trace w @ [PutLevel l]\<rparr>)"
         "\<not> refused (dev (trace w @ [PutLevel l]))"
proof (cases "errorHandler (PutLevel l) (dev (trace w @ [PutLevel l]))")
  case (Inl e)
  then show ?thesis using fail by (simp add: setLevel_run)
next
  case (Inr p)
  moreover from Inr have "\<not> refused (dev (trace w @ [PutLevel l]))"
    using errorHandler_Inl [of "PutLevel l" "dev (trace w @ [PutLevel l])"] by simp
  ultimately show ?thesis using ok by (simp add: setLevel_run)
qed

lemma getLimitSignal_cases:
  obtains (fail) e where "getLimitSignal dev idx w = (Inl e, w\<lparr>trace := trace w @ [GetLimit]\<rparr>)"
  | (ok) b where "getLimitSignal dev idx w = (Inr b, w\<lparr>trace := trace w @ [GetLimit]\<rparr>)"
         "\<not> refused (dev (trace w @ [GetLimit]))"
proof (cases "fst (getLimitSignal dev idx w)")
  case (Inl e)
  then have "getLimitSignal dev idx w = (Inl e, w\<lparr>trace := trace w @ [GetLimit]\<rparr>)"
    using getLimitSignal_world [of dev idx w] by (cases "getLimitSignal dev idx w") simp
  then show ?thesis by (rule fail)
next
  case (Inr b)
  then have eq: "getLimitSignal dev idx w = (Inr b, w\<lparr>trace := trace w @ [GetLimit]\<rparr>)"
    using getLimitSignal_world [of dev idx w] by (cases "getLimitSignal dev idx w") simp
  have "\<not> refused (dev (trace w @ [GetLimit]))"
  proof
    assume "refused (dev (trace w @ [GetLimit]))"
    then obtain e where "errorHandler GetLimit (dev (trace w @ [GetLimit])) = Inl e"
      using errorHandler_Inl [of GetLimit] by blast
    then have "fst (getLimitSignal dev idx w) = Inl e"
      by (simp add: getLimitSignal_def)
    with Inr show False by simp
  qed
  with eq show ?thesis by (rule ok)
qed

lemma findLimit_stop:
  "(lo + hi) div 2 = lo \<Longrightarrow> findLimit dev idx lo hi w = Some (Inr lo, w)"
  by (subst findLimit.simps) simp

lemma findLimit_fail1:
  "(lo + hi) div 2 \<noteq> lo \<Longrightarrow>
   setChannels dev (channelValues idx ((lo + hi) div 2)) w = (Inl e, w1) \<Longrightarrow>
   findLimit dev idx lo hi w = Some (Inl e, w1)"
  by (subst findLimit.simps) (simp add: Let_def)

lemma findLimit_fail2:
  "(lo + hi) div 2 \<noteq> lo \<Longrightarrow>
   setChannels dev (channelValues idx ((lo + hi) div 2)) w = (Inr u, w1) \<Longrightarrow>
   getLimitSignal dev idx w1 = (Inl e, w2) \<Longrightarrow>
   findLimit dev idx lo hi w = Some (Inl e, w2)"
  by (subst findLimit.simps) (simp add: Let_def)

lemma findLimit_step:
  "(lo + hi) div 2 \<noteq> lo \<Longrightarrow>
   setChannels dev (channelValues idx ((lo + hi) div 2)) w = (Inr u, w1) \<Longrightarrow>
   getLimitSignal dev idx w1 = (Inr b, w2) \<Longrightarrow>
   findLimit dev idx lo hi w =
     (if b then findLimit dev idx lo ((lo + hi) div 2) w2
      else findLimit dev idx ((lo + hi) div 2) hi w2)"
  by (subst findLimit.simps) (simp add: Let_def)

lemma findLimit_run:
  "lo \<le> hi \<Longrightarrow>
   \<exists>r evs. findLimit dev idx lo hi w = Some (r, w\<lparr>trace := trace w @ evs\<rparr>) \<and>
     okRun dev (trace w) r evs \<and>
     (\<forall>rq\<in>set evs. rq = GetLimit \<or> (\<exists>v. rq = PutCtrl (channelValues idx v))) \<and>
     (\<forall>v. r = Inr v \<longrightarrow> lo \<le> v \<and> v \<le> hi)"
proof (induction "nat (hi - lo)" arbitrary: lo hi w rule: less_induct)
  case less
  let ?mid = "(lo + hi) div 2"
  let ?arr = "channelValues idx ?mid"
  let ?w1 = "w\<lparr>trace := trace w @ [PutCtrl ?arr]\<rparr>"
  let ?w2 = "w\<lparr>trace := trace w @ [PutCtrl ?arr, GetLimit]\<rparr>"
  show ?case
  proof (cases "?mid = lo")
    case True
    then have "findLimit dev idx lo hi w = Some (Inr lo, w\<lparr>trace := trace w @ []\<rparr>)"
      by (simp add: findLimit_stop)
    moreover have "okRun dev (trace w) (Inr lo :: error + int) []"
      by (simp add: okRun_def)
    ultimately show ?thesis using less.prems by fastforce
  next
    case False
    with less.prems have lt: "lo < ?mid" "?mid < hi" by linarith+
    show ?thesis
    proof (cases rule: setChannels_cases [of dev ?arr w])
      case (fail e)
      with False have "findLimit dev idx lo hi w = Some (Inl e, ?w1)"
        by (rule findLimit_fail1)
      moreover have "okRun dev (trace w) (Inl e :: error + int) [PutCtrl ?arr]"
        by (simp add: okRun_def)
      ultimately show ?thesis
        by (intro exI [of _ "Inl e"] exI [of _ "[PutCtrl ?arr]"]) auto
    next
      case ok
      have w2: "?w1\<lparr>trace := trace ?w1 @ [GetLimit]\<rparr> = ?w2" by simp
      show ?thesis
      proof (cases rule: getLimitSignal_cases [of dev idx ?w1])
        case (fail e)
        with False ok(1) have "findLimit dev idx lo hi w = Some (Inl e, ?w2)"
          unfolding w2 by (rule findLimit_fail2)
        moreover have "okRun dev (trace w) (Inl e :: error + int) [PutCtrl ?arr, GetLimit]"
          using ok(2) by (simp add: okRun_def)
        ultimately show ?thesis
          by (intro exI [of _ "Inl e"] exI [of _ "[PutCtrl ?arr, GetLimit]"]) auto
      next
        case (ok b)
        note rd = ok
        let ?lo' = "if b then lo else ?mid" and ?hi' = "if b then ?mid else hi"
        from False \<open>setChannels dev ?arr w = (Inr (), ?w1)\<close> rd(1)
        have step: "findLimit dev idx lo hi w = findLimit dev idx ?lo' ?hi' ?w2"
          unfolding w2 by (simp add: findLimit_step)
        have "nat (?hi' - ?lo') < nat (hi - lo)" and "?lo' \<le> ?hi'"
          using lt by auto
        from less.hyps [OF this, of ?w2]
        obtain r evs where
          run: "findLimit dev idx ?lo' ?hi' ?w2 = Some (r, ?w2\<lparr>trace := trace ?w2 @ evs\<rparr>)"
          and okr: "okRun dev (trace ?w2) r evs"
          and shape: "\<forall>rq\<in>set evs. rq = GetLimit \<or> (\<exists>v. rq = PutCtrl (channelValues idx v))"
          and rng: "\<forall>v. r = Inr v \<longrightarrow> ?lo' \<le> v \<and> v \<le> ?hi'"
          by blast
        have pre: "okRun dev (trace w) (Inr () :: error + unit) [PutCtrl ?arr, GetLimit]"
          using \<open>\<not> refused (dev (trace w @ [PutCtrl ?arr]))\<close> rd(2) by (simp add: okRun_def)
        have "okRun dev (trace w) r ([PutCtrl ?arr, GetLimit] @ evs)"
          using okRun_seq [OF pre] okr by simp
        moreover have "findLimit dev idx lo hi w =
            Some (r, w\<lparr>trace := trace w @ ([PutCtrl ?arr, GetLimit] @ evs)\<rparr>)"
          using step run by simp
        moreover have "\<forall>rq\<in>set ([PutCtrl ?arr, GetLimit] @ evs).
            rq = GetLimit \<or> (\<exists>v. rq = PutCtrl (channelValues idx v))"
          using shape by auto
        moreover have "\<forall>v. r = Inr v \<longrightarrow> lo \<le> v \<and> v \<le> hi"
          using rng lt by (auto split: if_splits)
        ultimately show ?thesis by blast
      qed
    qed
  qed
qed

section \<open>Facts about whole runs\<close>

lemma await_simps [simp]:
  "await None f = None"
  "await (Some (Inl e, w)) f = Some (Inl e, w)"
  "await (Some (Inr x, w)) f = f x w"
  by (simp_all add: await_def)

lemma levelsSent_append: "levelsSent (xs @ ys) = levelsSent xs @ levelsSent ys"
  by (induction xs rule: levelsSent.induct) auto

lemma levelsSent_empty: "levelsSent evs = [] \<Longrightarrow> PutLevel l \<notin> set evs"
  by (induction evs rule: levelsSent.induct) auto

lemma quiet_return: "quiet dev w (Some (Inr x, w))"
  unfolding quiet_def by (intro exI [of _ "Inr x"] exI [of _ "[]"]) (simp add: okRun_def)

lemma quiet_await:
  assumes m: "quiet dev w m" and f: "\<And>x w1. quiet dev w1 (f x w1)"
  shows "quiet dev w (await m f)"
proof -
  from m obtain r evs where
    run: "m = Some (r, w\<lparr>trace := trace w @ evs\<rparr>)" and
    okr: "okRun dev (trace w) r evs" and lv: "levelsSent evs = []"
    unfolding quiet_def by blast
  let ?w1 = "w\<lparr>trace := trace w @ evs\<rparr>"
  show ?thesis
  proof (cases r)
    case (Inl e)
    then have "await m f = Some (Inl e, ?w1)" using run by simp
    moreover have "okRun dev (trace w) (Inl e :: error + 'b) evs"
      using okr Inl by (simp add: okRun_def)
    ultimately show ?thesis using lv unfolding quiet_def by blast
  next
    case (Inr x)
    then have aw: "await m f = f x ?w1" using run by simp
    from f [of ?w1 x] obtain r2 evs2 where
      run2: "f x ?w1 = Some (r2, ?w1\<lparr>trace := trace ?w1 @ evs2\<rparr>)" and
      okr2: "okRun dev (trace ?w1) r2 evs2" and lv2: "levelsSent evs2 = []"
      unfolding quiet_def by blast
    have "okRun dev (trace w) r2 (evs @ evs2)"
      using okRun_seq [of dev "trace w" x evs r2 evs2] okr okr2 Inr by simp
    moreover have "await m f = Some (r2, w\<lparr>trace := trace w @ (evs @ evs2)\<rparr>)"
      using aw run2 by simp
    moreover have "levelsSent (evs @ evs2) = []"
      using lv lv2 by (simp add: levelsSent_append)
    ultimately show ?thesis unfolding quiet_def by blast
  qed
qed

lemma roundTrips_like_no_level:
  "\<forall>rq\<in>set evs. rq = GetLimit \<or> (\<exists>v. rq = PutCtrl (channelValues idx v)) \<Longrightarrow>
   levelsSent evs = []"
  by (induction evs rule: levelsSent.induct) auto

lemma quiet_findLimit: "lo \<le> hi \<Longrightarrow> quiet dev w (findLimit dev idx lo hi w)"
  using findLimit_run [of lo hi dev idx w] roundTrips_like_no_level
  unfolding quiet_def by blast

lemma quiet_getLimits: "quiet dev w (getLimits dev w)"
  unfolding getLimits_def
  by (intro quiet_await quiet_findLimit quiet_return) simp_all

lemma quiet_calibLoop: "quiet dev w (calibLoop dev lg k acc w)"
proof (induction k arbitrary: acc w)
  case 0
  show ?case by (simp add: quiet_return)
next
  case (Suc k)
  obtain rs gs bs ws where acc: "acc = (rs, gs, bs, ws)" by (cases acc) auto
  show ?case
    unfolding acc calibLoop.simps
    by (rule quiet_await [OF quiet_getLimits]) (simp add: Suc.IH split: prod.splits)
qed

lemma last_no_level:
  "evs \<noteq> [] \<Longrightarrow> levelsSent evs = [] \<Longrightarrow> last evs \<noteq> PutLevel l"
  using levelsSent_empty [of evs l] last_in_set [of evs] by metis

lemma calib_run:
  "\<exists>r evs st. calib dev n lg w = Some (r, w\<lparr>trace := trace w @ evs, storage := st\<rparr>) \<and>
     okRun dev (trace w) r evs \<and>
     (case r of
        Inr lims \<Rightarrow> st = (storage w)\<lparr>LIMITS := Some lims\<rparr> \<and> levelsSent evs = [255, 0]
      | Inl e \<Rightarrow> st = storage w \<and>
          levelsSent evs = (if last evs = PutLevel 0 then [255, 0] else [255]))"
proof (cases rule: setLevel_cases [of dev 255 w])
  case (fail e)
  then have "calib dev n lg w =
      Some (Inl e, w\<lparr>trace := trace w @ [PutLevel 255], storage := storage w\<rparr>)"
    by (simp add: calib_def)
  moreover have "okRun dev (trace w) (Inl e :: error + int option list) [PutLevel 255]"
    by (simp add: okRun_def)
  ultimately show ?thesis
    by (intro exI [of _ "Inl e"] exI [of _ "[PutLevel 255]"] exI [of _ "storage w"]) simp
next
  case ok
  let ?w1 = "w\<lparr>trace := trace w @ [PutLevel 255]\<rparr>"
  have pre: "okRun dev (trace w) (Inr () :: error + unit) [PutLevel 255]"
    using ok(2) by (simp add: okRun_def)
  from quiet_calibLoop [of dev ?w1 lg n "([], [], [], [])"]
  obtain r1 evs1 where
    loop: "calibLoop dev lg n ([], [], [], []) ?w1 = Some (r1, ?w1\<lparr>trace := trace ?w1 @ evs1\<rparr>)"
    and okr1: "okRun dev (trace ?w1) r1 evs1" and lv1: "levelsSent evs1 = []"
    unfolding quiet_def by blast
  let ?w2 = "w\<lparr>trace := trace w @ PutLevel 255 # evs1\<rparr>"
  have w2: "?w1\<lparr>trace := trace ?w1 @ evs1\<rparr> = ?w2" by simp
  have okr12: "okRun dev (trace w) r1 (PutLevel 255 # evs1)"
    using okRun_seq [OF pre, of r1 evs1] okr1 by simp
  show ?thesis
  proof (cases r1)
    case (Inl e)
    then have "calib dev n lg w =
        Some (Inl e, w\<lparr>trace := trace w @ PutLevel 255 # evs1, storage := storage w\<rparr>)"
      using ok(1) loop by (simp add: calib_def)
    moreover have "okRun dev (trace w) (Inl e :: error + int option list) (PutLevel 255 # evs1)"
      using okr12 Inl by (simp add: okRun_def)
    moreover have "evs1 \<noteq> []" using okr1 Inl by (simp add: okRun_def)
    then have "last (PutLevel 255 # evs1) \<noteq> PutLevel 0"
      using last_no_level [OF _ lv1] by simp
    ultimately show ?thesis using lv1
      by (intro exI [of _ "Inl e"] exI [of _ "PutLevel 255 # evs1"] exI [of _ "storage w"]) simp
  next
    case (Inr acc)
    obtain rs gs bs ws where acc: "acc = (rs, gs, bs, ws)" by (cases acc) auto
    let ?evs2 = "PutLevel 255 # evs1 @ [PutLevel 0]"
    let ?w3 = "w\<lparr>trace := trace w @ ?evs2\<rparr>"
    have w3: "?w2\<lparr>trace := trace ?w2 @ [PutLevel 0]\<rparr> = ?w3" by simp
    have okr2: "okRun dev (trace w) (Inr () :: error + unit) (PutLevel 255 # evs1)"
      using okr12 Inr by (simp add: okRun_def)
    have lv2: "levelsSent ?evs2 = [255, 0]"
      using lv1 by (simp add: levelsSent_append)
    show ?thesis
    proof (cases rule: setLevel_cases [of dev 0 ?w2])
      case (fail e)
      then have "calib dev n lg w = Some (Inl e, w\<lparr>trace := trace w @ ?evs2, storage := storage w\<rparr>)"
        using ok(1) loop Inr acc unfolding w3 by (simp add: calib_def)
      moreover have "okRun dev (trace w) (Inl e :: error + int option list) ?evs2"
        using okr2 by (simp add: okRun_def butlast_append)
      ultimately show ?thesis using lv2
        by (intro exI [of _ "Inl e"] exI [of _ ?evs2] exI [of _ "storage w"]) simp
    next
      case ok
      note off = ok
      let ?lims = "[median rs, median gs, median bs, median ws]"
      have "calib dev n lg w =
          Some (Inr ?lims, w\<lparr>trace := trace w @ ?evs2, storage := (storage w)\<lparr>LIMITS := Some ?lims\<rparr>\<rparr>)"
        using \<open>setLevel dev 255 w = (Inr (), ?w1)\<close> loop Inr acc off(1) unfolding w3
        by (simp add: calib_def setItemLIMITS_def Let_def)
      moreover have "okRun dev (trace w) (Inr ?lims) ?evs2"
        using okr2 off(2) by (simp add: okRun_def clean_append)
      ultimately show ?thesis using lv2
        by (intro exI [of _ "Inr ?lims"] exI [of _ ?evs2]
            exI [of _ "(storage w)\<lparr>LIMITS := Some ?lims\<rparr>"]) simp
    qed
  qed
qed

section \<open>Facts about the simulated fixture\<close>

lemma simulated_simDevice: "simulated trip (simDevice trip)"
  by (simp add: simulated_def)

lemma simulated_offFails: "simulated trip (offFails trip)"
  by (simp add: simulated_def offFails_def)

lemma driven_ctrl: "driven (h @ [PutCtrl arr, GetLimit]) = arr"
  by (simp add: driven_def)

lemma lt4_cases: "idx < 4 \<Longrightarrow> idx = 0 \<or> idx = 1 \<or> idx = 2 \<or> idx = (3::nat)"
  by arith

lemma code_channelValues: "code (channelValues idx v) idx = v"
proof (cases "idx < 4")
  case True
  from lt4_cases [OF this] show ?thesis
    by (auto simp: code_def channelValues_def)
next
  case False
  let ?pre = "[Num 0, Num 0, Num 0, Num 0] @ replicate (idx - 4) Hole"
  have len: "length ?pre = idx" using False by simp
  have "channelValues idx v = ?pre @ [Num v]"
    using False by (simp add: channelValues_def)
  moreover have "(?pre @ [Num v]) ! idx = Num v"
    using nth_append_length [of ?pre "Num v" "[]"] unfolding len .
  moreover have "idx < length (?pre @ [Num v])"
    using len by simp
  ultimately show ?thesis by (simp only: code_def if_True cell.case)
qed

lemma sim_setChannels:
  "simulated trip dev \<Longrightarrow>
   setChannels dev arr w = (Inr (), w\<lparr>trace := trace w @ [PutCtrl arr]\<rparr>)"
  by (simp add: setChannels_run simulated_def simDevice_def)

lemma getProp_pinLevels:
  "getProp (pinLevels trip arr) (keyOf idx) =
     Inr (if idx < 4 then JNum (if trip idx (code arr idx) then 1 else 0) else JUndefined)"
proof (cases "idx < 4")
  case True
  then show ?thesis
    using lt4_cases [OF True] by (auto simp: pinLevels_def keyOf_def channelKey_def)
next
  case False
  then show ?thesis by (simp add: pinLevels_def keyOf_def channelKey_def)
qed

lemma sim_getLimitSignal:
  assumes "simulated trip dev"
  shows "getLimitSignal dev idx (w\<lparr>trace := trace w @ [PutCtrl arr]\<rparr>) =
     (Inr (idx < 4 \<longrightarrow> trip idx (code arr idx)), w\<lparr>trace := trace w @ [PutCtrl arr, GetLimit]\<rparr>)"
proof -
  from assms have "dev ((trace w @ [PutCtrl arr]) @ [GetLimit]) =
      simDevice trip ((trace w @ [PutCtrl arr]) @ [GetLimit])"
    unfolding simulated_def by blast
  then have "dev (trace w @ [PutCtrl arr, GetLimit]) =
      Reply True ''OK'' (Parsed (pinLevels trip arr))"
    using driven_ctrl [of "trace w" arr] by (simp add: simDevice_def)
  then show ?thesis
    by (simp add: getLimitSignal_def getProp_pinLevels)
qed

lemma sim_step:
  assumes sim: "simulated trip dev" and ne: "(lo + hi) div 2 \<noteq> lo"
  shows "findLimit dev idx lo hi w =
     (if idx < 4 \<longrightarrow> trip idx ((lo + hi) div 2)
      then findLimit dev idx lo ((lo + hi) div 2)
             (w\<lparr>trace := trace w @ roundTrips idx [(lo + hi) div 2]\<rparr>)
      else findLimit dev idx ((lo + hi) div 2) hi
             (w\<lparr>trace := trace w @ roundTrips idx [(lo + hi) div 2]\<rparr>))"
proof -
  let ?arr = "channelValues idx ((lo + hi) div 2)"
  have a: "setChannels dev ?arr w = (Inr (), w\<lparr>trace := trace w @ [PutCtrl ?arr]\<rparr>)"
    by (rule sim_setChannels [OF sim])
  have b: "getLimitSignal dev idx (w\<lparr>trace := trace w @ [PutCtrl ?arr]\<rparr>) =
      (Inr (idx < 4 \<longrightarrow> trip idx (code ?arr idx)),
       w\<lparr>trace := trace w @ [PutCtrl ?arr, GetLimit]\<rparr>)"
    by (rule sim_getLimitSignal [OF sim])
  from findLimit_step [OF ne a b] show ?thesis
    by (simp add: code_channelValues)
qed

lemma roundTrips_append: "roundTrips idx (xs @ ys) = roundTrips idx xs @ roundTrips idx ys"
  by (induction xs) auto

lemma findLimit_threshold:
  assumes sim: "simulated trip dev" and idx: "idx < 4" and thr: "\<And>v. trip idx v = (T < v)"
  shows "lo \<le> T \<Longrightarrow> lo < hi \<Longrightarrow> hi - lo \<le> 2 ^ k \<Longrightarrow>
     \<exists>vs. findLimit dev idx lo hi w =
            Some (Inr (min T (hi - 1)), w\<lparr>trace := trace w @ roundTrips idx vs\<rparr>) \<and>
          length vs \<le> k"
proof (induction k arbitrary: lo hi w)
  case 0
  then have "(lo + hi) div 2 = lo" by simp
  then have "findLimit dev idx lo hi w = Some (Inr lo, w\<lparr>trace := trace w @ roundTrips idx []\<rparr>)"
    by (simp add: findLimit_stop)
  moreover have "min T (hi - 1) = lo" using 0 by simp
  ultimately show ?case by (intro exI [of _ "[]"]) simp
next
  case (Suc k)
  let ?mid = "(lo + hi) div 2"
  show ?case
  proof (cases "?mid = lo")
    case True
    then have "findLimit dev idx lo hi w = Some (Inr lo, w\<lparr>trace := trace w @ roundTrips idx []\<rparr>)"
      by (simp add: findLimit_stop)
    moreover have "min T (hi - 1) = lo" using True Suc.prems by simp
    ultimately show ?thesis by (intro exI [of _ "[]"]) simp
  next
    case False
    with Suc.prems have lt: "lo < ?mid" "?mid < hi" by linarith+
    let ?w2 = "w\<lparr>trace := trace w @ roundTrips idx [?mid]\<rparr>"
    have half: "?mid - lo \<le> 2 ^ k" "hi - ?mid \<le> 2 ^ k"
      using Suc.prems(3) by simp_all
    show ?thesis
    proof (cases "T < ?mid")
      case True
      then have step: "findLimit dev idx lo hi w = findLimit dev idx lo ?mid ?w2"
        using sim_step [OF sim False] idx thr by simp
      from Suc.IH [OF Suc.prems(1) lt(1) half(1), of ?w2] obtain vs where
        "findLimit dev idx lo ?mid ?w2 =
           Some (Inr (min T (?mid - 1)), ?w2\<lparr>trace := trace ?w2 @ roundTrips idx vs\<rparr>)"
        and len: "length vs \<le> k" by blast
      moreover have "min T (?mid - 1) = min T (hi - 1)" using True lt by simp
      ultimately have "findLimit dev idx lo hi w =
          Some (Inr (min T (hi - 1)), w\<lparr>trace := trace w @ roundTrips idx (?mid # vs)\<rparr>)"
        using step by simp
      with len show ?thesis by (intro exI [of _ "?mid # vs"]) simp
    next
      case False
      then have le: "?mid \<le> T" by simp
      from False have step: "findLimit dev idx lo hi w = findLimit dev idx ?mid hi ?w2"
        using sim_step [OF sim \<open>?mid \<noteq> lo\<close>] idx thr by simp
      from Suc.IH [OF le lt(2) half(2), of ?w2] obtain vs where
        "findLimit dev idx ?mid hi ?w2 =
           Some (Inr (min T (hi - 1)), ?w2\<lparr>trace := trace ?w2 @ roundTrips idx vs\<rparr>)"
        and len: "length vs \<le> k" by blast
      then have "findLimit dev idx lo hi w =
          Some (Inr (min T (hi - 1)), w\<lparr>trace := trace w @ roundTrips idx (?mid # vs)\<rparr>)"
        using step by simp
      with len show ?thesis by (intro exI [of _ "?mid # vs"]) simp
    qed
  qed
qed

lemma findLimit_any_signal:
  assumes sim: "simulated trip dev"
  shows "lo \<le> hi \<Longrightarrow>
     \<exists>v vs. findLimit dev idx lo hi w = Some (Inr v, w\<lparr>trace := trace w @ roundTrips idx vs\<rparr>) \<and>
       lo \<le> v \<and> v \<le> hi"
proof (induction "nat (hi - lo)" arbitrary: lo hi w rule: less_induct)
  case less
  let ?mid = "(lo + hi) div 2"
  show ?case
  proof (cases "?mid = lo")
    case True
    then have "findLimit dev idx lo hi w = Some (Inr lo, w\<lparr>trace := trace w @ roundTrips idx []\<rparr>)"
      by (simp add: findLimit_stop)
    with less.prems show ?thesis by (intro exI [of _ lo] exI [of _ "[]"]) simp
  next
    case False
    with less.prems have lt: "lo < ?mid" "?mid < hi" by linarith+
    let ?w2 = "w\<lparr>trace := trace w @ roundTrips idx [?mid]\<rparr>"
    let ?b = "idx < 4 \<longrightarrow> trip idx ?mid"
    let ?lo' = "if ?b then lo else ?mid" and ?hi' = "if ?b then ?mid else hi"
    have step: "findLimit dev idx lo hi w = findLimit dev idx ?lo' ?hi' ?w2"
      using sim_step [OF sim False] by simp
    have "nat (?hi' - ?lo') < nat (hi - lo)" and "?lo' \<le> ?hi'"
      using lt by auto
    from less.hyps [OF this, of ?w2] obtain v vs where
      "findLimit dev idx ?lo' ?hi' ?w2 =
         Some (Inr v, ?w2\<lparr>trace := trace ?w2 @ roundTrips idx vs\<rparr>)"
      and rng: "?lo' \<le> v \<and> v \<le> ?hi'" by blast
    then have "findLimit dev idx lo hi w =
        Some (Inr v, w\<lparr>trace := trace w @ roundTrips idx (?mid # vs)\<rparr>)"
      using step by simp
    moreover have "lo \<le> v \<and> v \<le> hi" using rng lt by (auto split: if_splits)
    ultimately show ?thesis by blast
  qed
qed

lemma levelsSent_roundTrips: "levelsSent (roundTrips idx vs) = []"
  by (induction vs) auto

lemma findLimit_channel:
  assumes sim: "simulated (tripAbove T) dev" and c: "c < 4" "c < length T"
    and lo: "0 \<le> t" and le: "T ! c = t"
  shows "\<exists>vs. findLimit dev c 0 255 w =
            Some (Inr (min t 254), w\<lparr>trace := trace w @ roundTrips c vs\<rparr>) \<and> length vs \<le> 8"
proof -
  have thr: "\<And>v. tripAbove T c v = (t < v)"
    using c le by (simp add: tripAbove_def)
  have "(255::int) - 0 \<le> 2 ^ 8" by simp
  from findLimit_threshold [OF sim c(1) thr lo _ this, of w] show ?thesis by simp
qed

section \<open>The search: exactness, termination, channel isolation\<close>

text \<open>
  C1 (as amended). For every channel \<open>c\<close> in 0..3 and every monotonic trip signal whose
  threshold \<open>T ! c\<close> lies in 0..254 (off at every code up to the threshold, on at every code
  above it, hence on at 255), \<open>findLimit(c, 0, 255)\<close> on the simulated fixture returns exactly
  the threshold: the signal is off there and on one code higher. The search sends at most 8
  write/read round trips, the writes and reads alternating.
\<close>

theorem findLimit_exact:
  "c < 4 \<Longrightarrow> length T = 4 \<Longrightarrow> 0 \<le> T ! c \<Longrightarrow> T ! c \<le> 254 \<Longrightarrow>
   \<exists>vs. findLimit (simDevice (tripAbove T)) c 0 255 w =
          Some (Inr (T ! c), w\<lparr>trace := trace w @ roundTrips c vs\<rparr>) \<and>
        length vs \<le> 8 \<and> \<not> tripAbove T c (T ! c) \<and> tripAbove T c (T ! c + 1)"
proof -
  assume c: "c < 4" and len: "length T = 4" and lo: "0 \<le> T ! c" and hi: "T ! c \<le> 254"
  from c len have cl: "c < length T" by simp
  from findLimit_channel [OF simulated_simDevice c cl lo refl, of w] hi
  obtain vs where "findLimit (simDevice (tripAbove T)) c 0 255 w =
      Some (Inr (T ! c), w\<lparr>trace := trace w @ roundTrips c vs\<rparr>)" and "length vs \<le> 8"
    by auto
  moreover have "\<not> tripAbove T c (T ! c)" and "tripAbove T c (T ! c + 1)"
    using cl by (simp_all add: tripAbove_def)
  ultimately show ?thesis by blast
qed

theorem findLimit_exact_witness:
  "(3::nat) < 4 \<and> length [100, 150, 200, 50 :: int] = 4 \<and>
   0 \<le> [100, 150, 200, 50 :: int] ! 3 \<and> [100, 150, 200, 50 :: int] ! 3 \<le> 254 \<and>
   (\<exists>vs. findLimit (simDevice (tripAbove [100, 150, 200, 50])) 3 0 255 emptyWorld =
          Some (Inr ([100, 150, 200, 50] ! 3),
                emptyWorld\<lparr>trace := trace emptyWorld @ roundTrips 3 vs\<rparr>) \<and>
        length vs \<le> 8 \<and>
        \<not> tripAbove [100, 150, 200, 50] 3 ([100, 150, 200, 50] ! 3) \<and>
        tripAbove [100, 150, 200, 50] 3 ([100, 150, 200, 50] ! 3 + 1))"
  using findLimit_exact [of 3 "[100, 150, 200, 50]" emptyWorld]
  by simp

text \<open>
  C1 as stated fails for the threshold 255, a signal that is off at every code 0..255: the
  search never probes 255, returns 254, and the signal is not on at 254 + 1.
\<close>

theorem findLimit_misses_255:
  "map_option fst (findLimit (simDevice (tripAbove [255, 255, 255, 255])) 0 0 255 emptyWorld) =
     Some (Inr 254) \<and>
   \<not> tripAbove [255, 255, 255, 255] 0 (254 + 1)"
proof -
  have "simulated (tripAbove [255, 255, 255, 255]) (simDevice (tripAbove [255, 255, 255, 255]))"
    by (rule simulated_simDevice)
  from findLimit_channel [OF this, of 0 255 emptyWorld]
  show ?thesis by (auto simp: tripAbove_def)
qed

text \<open>
  C6. Channel isolation: for every channel \<open>idx\<close> in 0..3 and all \<open>lo \<le> hi\<close>, every array
  that \<open>findLimit(idx, lo, hi)\<close> writes with \<open>setChannels\<close> has four elements, and every
  element other than the one of \<open>idx\<close> is 0.
\<close>

theorem channel_isolation:
  "idx < 4 \<Longrightarrow> lo \<le> hi \<Longrightarrow>
   \<exists>r evs. findLimit dev idx lo hi w = Some (r, w\<lparr>trace := trace w @ evs\<rparr>) \<and>
     (\<forall>arr. PutCtrl arr \<in> set evs \<longrightarrow>
        length arr = 4 \<and> (\<forall>c<4. c \<noteq> idx \<longrightarrow> arr ! c = Num 0))"
proof -
  assume idx: "idx < 4" and le: "lo \<le> hi"
  from findLimit_run [OF le, of dev idx w] obtain r evs where
    run: "findLimit dev idx lo hi w = Some (r, w\<lparr>trace := trace w @ evs\<rparr>)" and
    shape: "\<forall>rq\<in>set evs. rq = GetLimit \<or> (\<exists>v. rq = PutCtrl (channelValues idx v))"
    by blast
  have "length arr = 4 \<and> (\<forall>c<4. c \<noteq> idx \<longrightarrow> arr ! c = Num 0)"
    if "PutCtrl arr \<in> set evs" for arr
  proof -
    from that shape obtain v where arr: "arr = channelValues idx v" by auto
    have "length (channelValues idx v) = 4"
      using lt4_cases [OF idx] by (auto simp: channelValues_def)
    moreover have "channelValues idx v ! c = Num 0" if "c < 4" "c \<noteq> idx" for c
      using lt4_cases [OF that(1)] lt4_cases [OF idx] that(2)
      by (auto simp: channelValues_def)
    ultimately show ?thesis unfolding arr by blast
  qed
  with run show ?thesis by blast
qed

theorem channel_isolation_witness:
  "(2::nat) < 4 \<and> (0::int) \<le> 255 \<and>
   (\<exists>r evs. findLimit (simDevice (tripAbove [100, 150, 200, 50])) 2 0 255 emptyWorld =
        Some (r, emptyWorld\<lparr>trace := trace emptyWorld @ evs\<rparr>) \<and>
      (\<forall>arr. PutCtrl arr \<in> set evs \<longrightarrow>
         length arr = 4 \<and> (\<forall>c<4. c \<noteq> 2 \<longrightarrow> arr ! c = Num 0)))"
  using channel_isolation [of 2 0 255 "simDevice (tripAbove [100, 150, 200, 50])" emptyWorld]
  by simp

section \<open>Facts about calibration on the simulated fixture\<close>

lemma insort_same: "insort_key f x (replicate n x) = x # replicate n x"
  by (cases n) auto

lemma sort_key_replicate: "sort_key f (replicate n x) = replicate n x"
  by (induction n) (auto simp: insort_same sort_key_def)

lemma median_replicate: "median (replicate n t) = (if n = 0 then None else Some t)"
  by (simp add: median_def Let_def sort_key_replicate)

lemma getLimits_sim:
  assumes sim: "simulated (tripAbove T) dev" and len: "length T = 4"
    and rng: "\<forall>c<4. 0 \<le> T ! c \<and> T ! c \<le> 254"
  shows "\<exists>evs. getLimits dev w =
            Some (Inr (T ! 0, T ! 1, T ! 2, T ! 3), w\<lparr>trace := trace w @ evs\<rparr>) \<and>
          levelsSent evs = []"
proof -
  have ch: "\<exists>vs. findLimit dev c 0 255 w' =
      Some (Inr (T ! c), w'\<lparr>trace := trace w' @ roundTrips c vs\<rparr>)" if "c < 4" for c w'
  proof -
    from that len rng have "c < length T" "0 \<le> T ! c" "min (T ! c) 254 = T ! c" by auto
    with findLimit_channel [OF sim that, of "T ! c" w'] show ?thesis by auto
  qed
  from ch [of 0 w] obtain vs0 where
    r0: "findLimit dev 0 0 255 w = Some (Inr (T ! 0), w\<lparr>trace := trace w @ roundTrips 0 vs0\<rparr>)"
    by auto
  from ch [of 1 "w\<lparr>trace := trace w @ roundTrips 0 vs0\<rparr>"] obtain vs1 where
    r1: "findLimit dev 1 0 255 (w\<lparr>trace := trace w @ roundTrips 0 vs0\<rparr>) =
           Some (Inr (T ! 1), w\<lparr>trace := trace w @ roundTrips 0 vs0 @ roundTrips 1 vs1\<rparr>)"
    by auto
  from ch [of 2 "w\<lparr>trace := trace w @ roundTrips 0 vs0 @ roundTrips 1 vs1\<rparr>"] obtain vs2 where
    r2: "findLimit dev 2 0 255 (w\<lparr>trace := trace w @ roundTrips 0 vs0 @ roundTrips 1 vs1\<rparr>) =
           Some (Inr (T ! 2),
                 w\<lparr>trace := trace w @ roundTrips 0 vs0 @ roundTrips 1 vs1 @ roundTrips 2 vs2\<rparr>)"
    by auto
  from ch [of 3 "w\<lparr>trace := trace w @ roundTrips 0 vs0 @ roundTrips 1 vs1 @ roundTrips 2 vs2\<rparr>"]
  obtain vs3 where
    r3: "findLimit dev 3 0 255
           (w\<lparr>trace := trace w @ roundTrips 0 vs0 @ roundTrips 1 vs1 @ roundTrips 2 vs2\<rparr>) =
           Some (Inr (T ! 3),
                 w\<lparr>trace := trace w @ roundTrips 0 vs0 @ roundTrips 1 vs1 @ roundTrips 2 vs2 @
                            roundTrips 3 vs3\<rparr>)"
    by auto
  let ?evs = "roundTrips 0 vs0 @ roundTrips 1 vs1 @ roundTrips 2 vs2 @ roundTrips 3 vs3"
  have "getLimits dev w = Some (Inr (T ! 0, T ! 1, T ! 2, T ! 3), w\<lparr>trace := trace w @ ?evs\<rparr>)"
    unfolding getLimits_def by (simp add: r0 r1 r2 r3 del: One_nat_def)
  moreover have "levelsSent ?evs = []"
    by (simp add: levelsSent_append levelsSent_roundTrips)
  ultimately show ?thesis by blast
qed

lemma calibLoop_sim:
  assumes sim: "simulated (tripAbove T) dev" and len: "length T = 4"
    and rng: "\<forall>c<4. 0 \<le> T ! c \<and> T ! c \<le> 254"
  shows "\<exists>evs. calibLoop dev lg k (rs, gs, bs, ws) w =
            Some (Inr (rs @ replicate k (T ! 0), gs @ replicate k (T ! 1),
                       bs @ replicate k (T ! 2), ws @ replicate k (T ! 3)),
                  w\<lparr>trace := trace w @ evs\<rparr>) \<and>
          levelsSent evs = []"
proof (induction k arbitrary: rs gs bs ws w)
  case 0
  show ?case by (intro exI [of _ "[]"]) simp
next
  case (Suc k)
  from getLimits_sim [OF sim len rng, of w] obtain evs1 where
    g: "getLimits dev w = Some (Inr (T ! 0, T ! 1, T ! 2, T ! 3), w\<lparr>trace := trace w @ evs1\<rparr>)"
    and l1: "levelsSent evs1 = []" by blast
  let ?w1 = "w\<lparr>trace := trace w @ evs1\<rparr>"
  from Suc.IH [of "rs @ [T ! 0]" "gs @ [T ! 1]" "bs @ [T ! 2]" "ws @ [T ! 3]" ?w1]
  obtain evs2 where
    r: "calibLoop dev lg k (rs @ [T ! 0], gs @ [T ! 1], bs @ [T ! 2], ws @ [T ! 3]) ?w1 =
          Some (Inr ((rs @ [T ! 0]) @ replicate k (T ! 0), (gs @ [T ! 1]) @ replicate k (T ! 1),
                     (bs @ [T ! 2]) @ replicate k (T ! 2), (ws @ [T ! 3]) @ replicate k (T ! 3)),
                ?w1\<lparr>trace := trace ?w1 @ evs2\<rparr>)"
    and l2: "levelsSent evs2 = []" by blast
  have "calibLoop dev lg (Suc k) (rs, gs, bs, ws) w =
      Some (Inr (rs @ replicate (Suc k) (T ! 0), gs @ replicate (Suc k) (T ! 1),
                 bs @ replicate (Suc k) (T ! 2), ws @ replicate (Suc k) (T ! 3)),
            w\<lparr>trace := trace w @ (evs1 @ evs2)\<rparr>)"
    using g r by simp
  moreover have "levelsSent (evs1 @ evs2) = []"
    using l1 l2 by (simp add: levelsSent_append)
  ultimately show ?case by blast
qed

lemma setLevel_simDevice:
  "setLevel (simDevice trip) l w = (Inr (), w\<lparr>trace := trace w @ [PutLevel l]\<rparr>)"
  by (simp add: setLevel_run simDevice_def)

lemma calib_simDevice:
  assumes len: "length T = 4" and rng: "\<forall>c<4. 0 \<le> T ! c \<and> T ! c \<le> 254" and n: "0 < n"
  shows "\<exists>evs. calib (simDevice (tripAbove T)) n lg w =
            Some (Inr (map Some T),
                  w\<lparr>trace := trace w @ evs, storage := (storage w)\<lparr>LIMITS := Some (map Some T)\<rparr>\<rparr>)"
proof -
  let ?dev = "simDevice (tripAbove T)"
  let ?w1 = "w\<lparr>trace := trace w @ [PutLevel 255]\<rparr>"
  from calibLoop_sim [OF simulated_simDevice len rng, of lg n "[]" "[]" "[]" "[]" ?w1]
  obtain evs where
    loop: "calibLoop ?dev lg n ([], [], [], []) ?w1 =
             Some (Inr (replicate n (T ! 0), replicate n (T ! 1),
                        replicate n (T ! 2), replicate n (T ! 3)),
                   ?w1\<lparr>trace := trace ?w1 @ evs\<rparr>)"
    by auto
  from len obtain t0 t1 t2 t3 where T: "T = [t0, t1, t2, t3]"
    by (auto simp: length_Suc_conv eval_nat_numeral)
  have "calib ?dev n lg w =
      Some (Inr (map Some T),
            w\<lparr>trace := trace w @ (PutLevel 255 # evs @ [PutLevel 0]),
              storage := (storage w)\<lparr>LIMITS := Some (map Some T)\<rparr>\<rparr>)"
    using loop n unfolding calib_def
    by (simp add: setLevel_simDevice setItemLIMITS_def median_replicate Let_def T)
  then show ?thesis by blast
qed

lemma long_simDevice:
  assumes len: "length T = 4" and rng: "\<forall>c<4. 0 \<le> T ! c \<and> T ! c \<le> 254"
  shows "\<exists>w'. calib (simDevice (tripAbove T)) 100 True w = Some (Inr (map Some T), w') \<and>
     main parseFloat rnd (simDevice (tripAbove T)) [a0, a1, ''long''] w = Some (Inr (), w') \<and>
     LIMITS (storage w') = Some (map Some T)"
proof -
  from calib_simDevice [OF len rng, of 100 True w] obtain evs where
    "calib (simDevice (tripAbove T)) 100 True w =
        Some (Inr (map Some T),
              w\<lparr>trace := trace w @ evs, storage := (storage w)\<lparr>LIMITS := Some (map Some T)\<rparr>\<rparr>)"
    by auto
  then show ?thesis by (simp add: main_def)
qed

lemma calib_limitDown:
  "calib limitDown (Suc k) lg emptyWorld =
     Some (Inl TransportError,
           emptyWorld\<lparr>trace := [PutLevel 255, PutCtrl (channelValues 0 127), GetLimit]\<rparr>)"
proof -
  let ?w1 = "emptyWorld\<lparr>trace := [PutLevel 255]\<rparr>"
  let ?w2 = "emptyWorld\<lparr>trace := [PutLevel 255, PutCtrl (channelValues 0 127)]\<rparr>"
  let ?w3 = "emptyWorld\<lparr>trace := [PutLevel 255, PutCtrl (channelValues 0 127), GetLimit]\<rparr>"
  have lvl: "setLevel limitDown 255 emptyWorld = (Inr (), ?w1)"
    by (simp add: setLevel_run limitDown_def emptyWorld_def)
  have mid: "((0::int) + 255) div 2 = 127" "((0::int) + 255) div 2 \<noteq> 0" by simp_all
  have wr: "setChannels limitDown (channelValues 0 ((0 + 255) div 2)) ?w1 = (Inr (), ?w2)"
    by (simp add: setChannels_run limitDown_def emptyWorld_def)
  have rd: "getLimitSignal limitDown 0 ?w2 = (Inl TransportError, ?w3)"
    by (simp add: getLimitSignal_def limitDown_def emptyWorld_def)
  have "findLimit limitDown 0 0 255 ?w1 = Some (Inl TransportError, ?w3)"
    by (rule findLimit_fail2 [OF mid(2) wr rd])
  then have "getLimits limitDown ?w1 = Some (Inl TransportError, ?w3)"
    by (simp add: getLimits_def)
  then show ?thesis
    using lvl by (simp add: calib_def)
qed

lemma setLevel_offFails_255:
  "setLevel (offFails trip) 255 w = (Inr (), w\<lparr>trace := trace w @ [PutLevel 255]\<rparr>)"
  by (simp add: setLevel_run offFails_def simDevice_def)

lemma setLevel_offFails_0:
  "setLevel (offFails trip) 0 w =
     (Inl (DeviceError ''Internal Server Error: http://192.168.68.112/level''),
      w\<lparr>trace := trace w @ [PutLevel 0]\<rparr>)"
  by (simp add: setLevel_run offFails_def api_def)

section \<open>Aggregation\<close>

text \<open>
  C2. The claim is that the per-channel aggregate is the element at index \<open>floor(numRuns/2)\<close> of
  the samples in ascending numeric order. \<open>median\<close> sorts with \<open>a.sort()\<close>, which orders
  numbers by their decimal strings: of the five samples 98, 99, 100, 101, 102 it returns 102,
  where the numeric order gives 100.
\<close>

theorem median_orders_by_string:
  "median [98, 99, 100, 101, 102] = Some 102 \<and>
   sort [98, 99, 100, 101, 102 :: int] ! (length [98, 99, 100, 101, 102 :: int] div 2) = 100"
  by code_simp

section \<open>Calibration: persistence and failure\<close>

text \<open>
  C3 (as amended). \<open>calib\<close> itself writes the limits it computed to the store, under
  \<open>LIMITS\<close>, before it returns them: whenever it returns a LimitSet, the store holds exactly
  that LimitSet and is otherwise unchanged. The \<open>long\<close> command is \<open>calib(100, true)\<close>, so
  when it completes the store holds the result of the calibration.
\<close>

theorem calib_persists:
  "(calib dev n lg w = Some (Inr lims, w') \<longrightarrow> storage w' = (storage w)\<lparr>LIMITS := Some lims\<rparr>) \<and>
   (main parseFloat rnd dev [a0, a1, ''long''] w = Some (Inr u, w'') \<longrightarrow>
      (\<exists>ls. calib dev 100 True w = Some (Inr ls, w'') \<and> LIMITS (storage w'') = Some ls))"
proof (intro conjI impI)
  assume run: "calib dev n lg w = Some (Inr lims, w')"
  from calib_run [of dev n lg w] run
  show "storage w' = (storage w)\<lparr>LIMITS := Some lims\<rparr>" by auto
next
  assume m: "main parseFloat rnd dev [a0, a1, ''long''] w = Some (Inr u, w'')"
  then have "await (calib dev 100 True w) (\<lambda>_ w1. Some (Inr (), w1)) = Some (Inr u, w'')"
    by (simp add: main_def)
  then obtain ls where run: "calib dev 100 True w = Some (Inr ls, w'')"
    by (auto simp: await_def split: option.splits sum.splits prod.splits)
  from calib_run [of dev 100 True w] run
  have "storage w'' = (storage w)\<lparr>LIMITS := Some ls\<rparr>" by auto
  with run show "\<exists>ls. calib dev 100 True w = Some (Inr ls, w'') \<and> LIMITS (storage w'') = Some ls"
    by simp
qed

theorem calib_persists_witness:
  "\<exists>w'. calib (simDevice (tripAbove [100, 150, 200, 50])) 100 True emptyWorld =
       Some (Inr [Some 100, Some 150, Some 200, Some 50], w') \<and>
     main (map_of []) id (simDevice (tripAbove [100, 150, 200, 50]))
       [''node'', ''run.mjs'', ''long''] emptyWorld = Some (Inr (), w') \<and>
     storage w' = (storage emptyWorld)\<lparr>LIMITS := Some [Some 100, Some 150, Some 200, Some 50]\<rparr> \<and>
     LIMITS (storage w') = Some [Some 100, Some 150, Some 200, Some 50]"
proof -
  have rng: "\<forall>c<4. 0 \<le> [100, 150, 200, 50 :: int] ! c \<and> [100, 150, 200, 50 :: int] ! c \<le> 254"
    by (auto dest!: lt4_cases)
  from long_simDevice [OF _ rng, where parseFloat = "map_of []" and rnd = id
      and ?a0.0 = "''node''" and ?a1.0 = "''run.mjs''" and w = emptyWorld]
  obtain w' where
    c: "calib (simDevice (tripAbove [100, 150, 200, 50])) 100 True emptyWorld =
       Some (Inr [Some 100, Some 150, Some 200, Some 50], w')" and
    m: "main (map_of []) id (simDevice (tripAbove [100, 150, 200, 50]))
       [''node'', ''run.mjs'', ''long''] emptyWorld = Some (Inr (), w')"
    by auto
  from calib_persists [where dev = "simDevice (tripAbove [100, 150, 200, 50])" and n = 100
      and lg = True and w = emptyWorld and lims = "[Some 100, Some 150, Some 200, Some 50]"
      and w' = w' and parseFloat = "map_of []" and rnd = id and ?a0.0 = "''node''"
      and ?a1.0 = "''run.mjs''" and u = "()" and w'' = w']
    c m
  show ?thesis by auto
qed

text \<open>
  C3 as stated fails: on the simulated fixture with the thresholds 100, 150, 200, 50 and an
  empty store, the \<open>long\<close> command leaves these four limits in the store.
\<close>

theorem long_persists:
  "map_option (LIMITS \<circ> storage \<circ> snd)
     (main (map_of []) id (simDevice (tripAbove [100, 150, 200, 50]))
        [''node'', ''run.mjs'', ''long''] emptyWorld) =
     Some (Some [Some 100, Some 150, Some 200, Some 50]) \<and>
   LIMITS (storage emptyWorld) = None"
proof -
  have rng: "\<forall>c<4. 0 \<le> [100, 150, 200, 50 :: int] ! c \<and> [100, 150, 200, 50 :: int] ! c \<le> 254"
    by (auto dest!: lt4_cases)
  from long_simDevice [OF _ rng, where parseFloat = "map_of []" and rnd = id
      and ?a0.0 = "''node''" and ?a1.0 = "''run.mjs''" and w = emptyWorld]
  show ?thesis by (auto simp: emptyWorld_def)
qed

text \<open>
  C7. \<open>calib\<close> always returns. If the fixture refuses any request of the calibration (it
  cannot be reached, or answers with a status that is not a success), then the result is a
  rejection and no LimitSet, the store is what it was, and the refused request is the last
  one sent: every request before it was accepted, and nothing is sent after it, so nothing is
  retried.
\<close>

theorem calib_aborts_on_error:
  "\<exists>r evs st. calib dev n lg w = Some (r, w\<lparr>trace := trace w @ evs, storage := st\<rparr>) \<and>
     (\<not> clean dev (trace w) evs \<longrightarrow>
        (\<exists>e. r = Inl e) \<and> st = storage w \<and> evs \<noteq> [] \<and>
        clean dev (trace w) (butlast evs) \<and> refused (dev (trace w @ evs)))"
proof -
  from calib_run [of dev n lg w] obtain r evs st where
    run: "calib dev n lg w = Some (r, w\<lparr>trace := trace w @ evs, storage := st\<rparr>)" and
    okr: "okRun dev (trace w) r evs" and
    fin: "case r of
        Inr lims \<Rightarrow> st = (storage w)\<lparr>LIMITS := Some lims\<rparr> \<and> levelsSent evs = [255, 0]
      | Inl e \<Rightarrow> st = storage w \<and>
          levelsSent evs = (if last evs = PutLevel 0 then [255, 0] else [255])"
    by blast
  have "(\<exists>e. r = Inl e) \<and> st = storage w \<and> evs \<noteq> [] \<and>
        clean dev (trace w) (butlast evs) \<and> refused (dev (trace w @ evs))"
    if dirty: "\<not> clean dev (trace w) evs"
  proof (cases r)
    case (Inr lims)
    with okr dirty show ?thesis by (simp add: okRun_def)
  next
    case (Inl e)
    with okr have ne: "evs \<noteq> []" and bl: "clean dev (trace w) (butlast evs)"
      by (simp_all add: okRun_def)
    from ne have "evs = butlast evs @ [last evs]" by simp
    then have "clean dev (trace w) evs =
        (clean dev (trace w) (butlast evs) \<and> \<not> refused (dev (trace w @ evs)))"
      using clean_append [of dev "trace w" "butlast evs" "[last evs]"] by simp
    with dirty bl have "refused (dev (trace w @ evs))" by simp
    with Inl fin ne bl show ?thesis by simp
  qed
  with run show ?thesis by blast
qed

theorem calib_aborts_on_error_witness:
  "\<exists>r evs st.
     calib limitDown 5 True emptyWorld =
       Some (r, emptyWorld\<lparr>trace := trace emptyWorld @ evs, storage := st\<rparr>) \<and>
     \<not> clean limitDown (trace emptyWorld) evs \<and>
     (\<exists>e. r = Inl e) \<and> st = storage emptyWorld \<and> evs \<noteq> [] \<and>
     clean limitDown (trace emptyWorld) (butlast evs) \<and>
     refused (limitDown (trace emptyWorld @ evs))"
proof -
  from calib_aborts_on_error [of limitDown 5 True emptyWorld] obtain r evs st where
    run: "calib limitDown 5 True emptyWorld =
        Some (r, emptyWorld\<lparr>trace := trace emptyWorld @ evs, storage := st\<rparr>)" and
    imp: "\<not> clean limitDown (trace emptyWorld) evs \<longrightarrow>
        (\<exists>e. r = Inl e) \<and> st = storage emptyWorld \<and> evs \<noteq> [] \<and>
        clean limitDown (trace emptyWorld) (butlast evs) \<and>
        refused (limitDown (trace emptyWorld @ evs))"
    by blast
  have "calib limitDown 5 True emptyWorld =
      Some (Inl TransportError,
            emptyWorld\<lparr>trace := [PutLevel 255, PutCtrl (channelValues 0 127), GetLimit]\<rparr>)"
    using calib_limitDown [of 4 True] by simp
  with run have "emptyWorld\<lparr>trace := trace emptyWorld @ evs, storage := st\<rparr> =
      emptyWorld\<lparr>trace := [PutLevel 255, PutCtrl (channelValues 0 127), GetLimit]\<rparr>"
    by simp
  then have "trace (emptyWorld\<lparr>trace := trace emptyWorld @ evs, storage := st\<rparr>) =
      trace (emptyWorld\<lparr>trace := [PutLevel 255, PutCtrl (channelValues 0 127), GetLimit]\<rparr>)"
    by (rule arg_cong)
  then have evs: "evs = [PutLevel 255, PutCtrl (channelValues 0 127), GetLimit]"
    by (simp add: emptyWorld_def)
  have "\<not> clean limitDown (trace emptyWorld) evs"
    unfolding evs by (simp add: limitDown_def emptyWorld_def)
  with run imp show ?thesis by blast
qed

text \<open>
  C9 (as amended). When \<open>calib\<close> ends with a rejection, every request before the last one
  sent was accepted, and either the last request, the one that failed, is the final
  \<open>setLevel(0)\<close> itself, or \<open>setLevel(0)\<close> was never sent: the only level command of the run is
  then the initial 255, at which the fixture is left.
\<close>

theorem calib_abort_level:
  "calib dev n lg w = Some (Inl e, w') \<Longrightarrow>
   \<exists>evs. trace w' = trace w @ evs \<and> evs \<noteq> [] \<and> clean dev (trace w) (butlast evs) \<and>
     levelsSent evs = (if last evs = PutLevel 0 then [255, 0] else [255])"
proof -
  assume ab: "calib dev n lg w = Some (Inl e, w')"
  from calib_run [of dev n lg w] obtain r evs st where
    run: "calib dev n lg w = Some (r, w\<lparr>trace := trace w @ evs, storage := st\<rparr>)" and
    okr: "okRun dev (trace w) r evs" and
    fin: "case r of
        Inr lims \<Rightarrow> st = (storage w)\<lparr>LIMITS := Some lims\<rparr> \<and> levelsSent evs = [255, 0]
      | Inl e \<Rightarrow> st = storage w \<and>
          levelsSent evs = (if last evs = PutLevel 0 then [255, 0] else [255])"
    by blast
  from ab run have r: "r = Inl e" and w': "w' = w\<lparr>trace := trace w @ evs, storage := st\<rparr>"
    by simp_all
  from w' have "trace w' = trace w @ evs" by simp
  moreover from okr r have "evs \<noteq> []" "clean dev (trace w) (butlast evs)"
    by (simp_all add: okRun_def)
  moreover from fin r have "levelsSent evs = (if last evs = PutLevel 0 then [255, 0] else [255])"
    by simp
  ultimately show ?thesis by blast
qed

theorem calib_abort_level_witness:
  "calib limitDown 5 True emptyWorld =
     Some (Inl TransportError,
           emptyWorld\<lparr>trace := [PutLevel 255, PutCtrl (channelValues 0 127), GetLimit]\<rparr>) \<and>
   (\<exists>evs. trace (emptyWorld\<lparr>trace := [PutLevel 255, PutCtrl (channelValues 0 127), GetLimit]\<rparr>) =
       trace emptyWorld @ evs \<and> evs \<noteq> [] \<and>
     clean limitDown (trace emptyWorld) (butlast evs) \<and>
     levelsSent evs = (if last evs = PutLevel 0 then [255, 0] else [255]))"
proof -
  have run: "calib limitDown 5 True emptyWorld =
      Some (Inl TransportError,
            emptyWorld\<lparr>trace := [PutLevel 255, PutCtrl (channelValues 0 127), GetLimit]\<rparr>)"
    using calib_limitDown [of 4 True] by simp
  from calib_abort_level [OF run] run show ?thesis by blast
qed

text \<open>
  C9 as stated fails when the request that fails is the final \<open>setLevel(0)\<close>: a fixture that
  accepts the initial \<open>setLevel(255)\<close> and every search request but answers the level-0
  command with an error aborts the calibration, and \<open>setLevel(0)\<close> has been sent.
\<close>

theorem calib_off_refused:
  "map_option fst (calib (offFails (tripAbove [100, 150, 200, 50])) 1 False emptyWorld) =
     Some (Inl (DeviceError ''Internal Server Error: http://192.168.68.112/level'')) \<and>
   \<not> refused (offFails (tripAbove [100, 150, 200, 50]) [PutLevel 255]) \<and>
   map_option (levelsSent \<circ> trace \<circ> snd)
     (calib (offFails (tripAbove [100, 150, 200, 50])) 1 False emptyWorld) = Some [255, 0]"
proof -
  let ?T = "[100, 150, 200, 50] :: int list"
  let ?dev = "offFails (tripAbove ?T)"
  let ?w1 = "emptyWorld\<lparr>trace := trace emptyWorld @ [PutLevel 255]\<rparr>"
  have rng: "\<forall>c<4. 0 \<le> ?T ! c \<and> ?T ! c \<le> 254"
    by (auto dest!: lt4_cases)
  from calibLoop_sim [OF simulated_offFails _ rng, of False 1 "[]" "[]" "[]" "[]" ?w1]
  obtain evs where
    loop: "calibLoop ?dev False 1 ([], [], [], []) ?w1 =
        Some (Inr ([100], [150], [200], [50]), ?w1\<lparr>trace := trace ?w1 @ evs\<rparr>)"
    and lv: "levelsSent evs = []" by auto
  have "calib ?dev 1 False emptyWorld =
      Some (Inl (DeviceError ''Internal Server Error: http://192.168.68.112/level''),
            emptyWorld\<lparr>trace := trace emptyWorld @ PutLevel 255 # evs @ [PutLevel 0]\<rparr>)"
    unfolding calib_def using loop
    by (simp add: setLevel_offFails_255 setLevel_offFails_0)
  moreover have "\<not> refused (?dev [PutLevel 255])"
    by (simp add: offFails_def simDevice_def)
  ultimately show ?thesis
    using lv by (simp add: levelsSent_append emptyWorld_def)
qed

section \<open>Reading the limit signal\<close>

text \<open>
  C10. For every channel index 0..3, if the limit endpoint answers with a JSON object that has
  no field for the channel's pin, \<open>getLimitSignal\<close> reports the channel as tripped: the
  absent field reads as \<open>undefined\<close>, which is not \<open>0\<close>.
\<close>

theorem getLimitSignal_absent_field:
  "idx < 4 \<Longrightarrow> dev (trace w @ [GetLimit]) = Reply True statusText (Parsed (JObj fs)) \<Longrightarrow>
   map_of fs (channelKey ! idx) = None \<Longrightarrow>
   getLimitSignal dev idx w = (Inr True, w\<lparr>trace := trace w @ [GetLimit]\<rparr>)"
  by (simp add: getLimitSignal_def keyOf_def channelKey_def)

theorem getLimitSignal_absent_field_witness:
  "(0::nat) < 4 \<and>
   onePin (trace emptyWorld @ [GetLimit]) = Reply True ''OK'' (Parsed (JObj [(''pin16'', JNum 0)])) \<and>
   map_of [(''pin16'', JNum 0)] (channelKey ! 0) = None \<and>
   getLimitSignal onePin 0 emptyWorld = (Inr True, emptyWorld\<lparr>trace := trace emptyWorld @ [GetLimit]\<rparr>)"
  using getLimitSignal_absent_field [of 0 onePin emptyWorld "''OK''" "[(''pin16'', JNum 0)]"]
  by (simp add: onePin_def channelKey_def)

section \<open>Driving the light\<close>

text \<open>
  C4 (as amended). Level initialisation sends the persisted level when it is not 0, and 255
  when no level is persisted or the persisted level is 0.
\<close>

theorem initLevels_level:
  "trace (snd (initLevels dev (w\<lparr>storage := st\<lparr>LEVEL := None\<rparr>\<rparr>))) = trace w @ [PutLevel 255] \<and>
   trace (snd (initLevels dev (w\<lparr>storage := st\<lparr>LEVEL := Some 0\<rparr>\<rparr>))) = trace w @ [PutLevel 255] \<and>
   (l \<noteq> 0 \<longrightarrow>
      trace (snd (initLevels dev (w\<lparr>storage := st\<lparr>LEVEL := Some l\<rparr>\<rparr>))) = trace w @ [PutLevel l])"
  by (simp add: initLevels_def orElse_def setLevel_run)

theorem initLevels_level_witness:
  "(128::int) \<noteq> 0 \<and>
   trace (snd (initLevels unreachable (emptyWorld\<lparr>storage := (storage emptyWorld)\<lparr>LEVEL := Some 128\<rparr>\<rparr>))) =
     trace emptyWorld @ [PutLevel 128]"
  using initLevels_level [where dev = unreachable and w = emptyWorld and st = "storage emptyWorld" and l = 128]
  by simp

text \<open>
  C4 as stated fails for a persisted level of 0: the level sent to the fixture is 255, not 0.
\<close>

theorem initLevels_zero_gives_255:
  "trace (snd (initLevels (simDevice (tripAbove [100, 150, 200, 50]))
      (emptyWorld\<lparr>storage := \<lparr>LIMITS = None, LEVEL = Some 0\<rparr>\<rparr>))) = [PutLevel 255] \<and>
   [PutLevel 255] \<noteq> [PutLevel 0]"
  by (simp add: initLevels_def orElse_def setLevel_run emptyWorld_def)

section \<open>The search on doubles\<close>

lemma ulp_small: "n < 2 ^ 53 \<Longrightarrow> ulp n = 1"
  by (subst ulp.simps) simp

lemma ulp_next: "2 ^ 53 \<le> n \<Longrightarrow> n < 2 ^ 54 \<Longrightarrow> ulp n = 2"
  by (subst ulp.simps) (simp add: ulp_small)

lemma roundAbs_exact: "0 \<le> n \<Longrightarrow> n \<le> 2 ^ 53 \<Longrightarrow> roundAbs n = n"
proof (cases "n < 2 ^ 53")
  case True
  then show ?thesis by (simp add: roundAbs_def ulp_small)
next
  case False
  assume "n \<le> 2 ^ 53"
  with False have n: "n = 2 ^ 53" by simp
  show ?thesis unfolding n by (simp add: roundAbs_def Let_def ulp_next)
qed

lemma roundAbs_half: "0 \<le> n \<Longrightarrow> n \<le> 2 ^ 53 + 2 \<Longrightarrow> roundAbs n div 2 = n div 2"
proof -
  assume n: "0 \<le> n" "n \<le> 2 ^ 53 + 2"
  then consider "n \<le> 2 ^ 53" | "n = 2 ^ 53 + 1" | "n = 2 ^ 53 + 2" by fastforce
  then show ?thesis
  proof cases
    case 1
    with n show ?thesis by (simp add: roundAbs_exact)
  next
    case 2
    show ?thesis unfolding 2 by (simp add: roundAbs_def Let_def ulp_next)
  next
    case 3
    show ?thesis unfolding 3 by (simp add: roundAbs_def Let_def ulp_next)
  qed
qed

lemma midDouble_exact:
  "0 \<le> lo \<Longrightarrow> 0 \<le> hi \<Longrightarrow> lo \<le> 2 ^ 52 + 1 \<Longrightarrow> hi \<le> 2 ^ 52 + 1 \<Longrightarrow>
   midDouble lo hi = (lo + hi) div 2"
proof -
  assume a: "0 \<le> lo" "0 \<le> hi" "lo \<le> 2 ^ 52 + 1" "hi \<le> 2 ^ 52 + 1"
  then have "0 \<le> lo + hi" "lo + hi \<le> 2 ^ 53 + 2" by simp_all
  then have "roundAbs (lo + hi) div 2 = (lo + hi) div 2" by (rule roundAbs_half)
  with a show ?thesis by (simp add: midDouble_def roundDouble_def)
qed

lemma midDouble_tie: "midDouble (2 ^ 52 + 1) (2 ^ 52 + 2) = 2 ^ 52 + 2"
  by (simp add: midDouble_def roundDouble_def roundAbs_def Let_def ulp_next)

lemma findLimitDouble_stuck:
  assumes "findLimitDouble dev idx lo hi w = Some y"
  shows "\<not> (simulated trip dev \<and> idx < 4 \<and> trip idx hi \<and> midDouble lo hi = hi \<and> lo \<noteq> hi)"
proof (rule findLimitDouble.raw_induct
    [where P = "\<lambda>dev idx lo hi w y.
       \<not> (simulated trip dev \<and> idx < 4 \<and> trip idx hi \<and> midDouble lo hi = hi \<and> lo \<noteq> hi)",
     OF _ assms], goal_cases)
  case (1 f dev idx lo hi w y)
  show ?case
  proof
    assume st: "simulated trip dev \<and> idx < 4 \<and> trip idx hi \<and> midDouble lo hi = hi \<and> lo \<noteq> hi"
    then have sim: "simulated trip dev" by simp
    let ?arr = "channelValues idx hi"
    have a: "setChannels dev ?arr w = (Inr (), w\<lparr>trace := trace w @ [PutCtrl ?arr]\<rparr>)"
      by (rule sim_setChannels [OF sim])
    have b: "getLimitSignal dev idx (w\<lparr>trace := trace w @ [PutCtrl ?arr]\<rparr>) =
        (Inr True, w\<lparr>trace := trace w @ [PutCtrl ?arr, GetLimit]\<rparr>)"
      using sim_getLimitSignal [OF sim, of idx w ?arr] st by (simp add: code_channelValues)
    from 1(2) st a b
    have "f dev idx lo hi (w\<lparr>trace := trace w @ [PutCtrl ?arr, GetLimit]\<rparr>) = Some y"
      by (simp add: Let_def)
    from 1(1) [OF this] st show False by simp
  qed
qed

lemma findLimitDouble_exact:
  "0 \<le> lo \<Longrightarrow> lo \<le> hi \<Longrightarrow> hi \<le> 2 ^ 52 + 1 \<Longrightarrow>
   findLimitDouble dev idx lo hi w = findLimit dev idx lo hi w"
proof (induction "nat (hi - lo)" arbitrary: lo hi w rule: less_induct)
  case less
  let ?mid = "(lo + hi) div 2"
  have md: "midDouble lo hi = ?mid"
    using less.prems by (intro midDouble_exact) simp_all
  have low: "findLimitDouble dev idx lo ?mid w' = findLimit dev idx lo ?mid w'"
    if "?mid \<noteq> lo" for w'
  proof -
    from that less.prems have "lo < ?mid" "?mid < hi" by linarith+
    with less.prems have "nat (?mid - lo) < nat (hi - lo)" "lo \<le> ?mid" "?mid \<le> 2 ^ 52 + 1"
      by linarith+
    from less.hyps [OF this(1) less.prems(1) this(2,3)] show ?thesis .
  qed
  have high: "findLimitDouble dev idx ?mid hi w' = findLimit dev idx ?mid hi w'"
    if "?mid \<noteq> lo" for w'
  proof -
    from that less.prems have "lo < ?mid" "?mid < hi" by linarith+
    with less.prems have "nat (hi - ?mid) < nat (hi - lo)" "0 \<le> ?mid" "?mid \<le> hi"
      by linarith+
    from less.hyps [OF this less.prems(3)] show ?thesis .
  qed
  show ?case
    by (subst findLimitDouble.simps, subst findLimit.simps)
      (simp add: Let_def md low high split: prod.splits sum.splits)
qed

lemma midDouble_0_255: "midDouble 0 255 = 127"
  by (simp add: midDouble_exact)

text \<open>Every search the script starts is on 0..255, where the two searches are the same.\<close>

lemma findLimitDouble_0_255: "findLimitDouble dev idx 0 255 w = findLimit dev idx 0 255 w"
  by (rule findLimitDouble_exact) simp_all

text \<open>
  C5 (as amended). For every channel index, every fixture (whatever it answers, so every trip
  signal, monotonic or not, and every failure) and all integers \<open>0 \<le> lo \<le> hi \<le> 2^52 + 1\<close>, the
  search returns: with a result or with the rejection of a request. On the simulated
  fixture with an arbitrary trip signal it returns a value between \<open>lo\<close> and \<open>hi\<close>. Whenever
  the search recurses, the midpoint the script computes is strictly between \<open>lo\<close> and \<open>hi\<close>,
  so both ranges it may continue with are strictly smaller.
\<close>

theorem findLimit_terminates:
  "0 \<le> lo \<Longrightarrow> lo \<le> hi \<Longrightarrow> hi \<le> 2 ^ 52 + 1 \<Longrightarrow>
   (\<exists>r w'. findLimitDouble dev idx lo hi w = Some (r, w')) \<and>
   (\<exists>v w'. findLimitDouble (simDevice trip) idx lo hi w = Some (Inr v, w') \<and>
      lo \<le> v \<and> v \<le> hi) \<and>
   (midDouble lo hi \<noteq> lo \<longrightarrow> lo < midDouble lo hi \<and> midDouble lo hi < hi)"
proof (intro conjI impI)
  assume b: "0 \<le> lo" "lo \<le> hi" "hi \<le> 2 ^ 52 + 1"
  from findLimit_run [OF b(2), of dev idx w]
  show "\<exists>r w'. findLimitDouble dev idx lo hi w = Some (r, w')"
    unfolding findLimitDouble_exact [OF b] by blast
  from findLimit_any_signal [OF simulated_simDevice b(2), of trip idx w]
  show "\<exists>v w'. findLimitDouble (simDevice trip) idx lo hi w = Some (Inr v, w') \<and>
      lo \<le> v \<and> v \<le> hi"
    unfolding findLimitDouble_exact [OF b] by blast
next
  assume b: "0 \<le> lo" "lo \<le> hi" "hi \<le> 2 ^ 52 + 1" and ne: "midDouble lo hi \<noteq> lo"
  have "midDouble lo hi = (lo + hi) div 2"
    using b by (intro midDouble_exact) simp_all
  with b ne show "lo < midDouble lo hi" by linarith
next
  assume b: "0 \<le> lo" "lo \<le> hi" "hi \<le> 2 ^ 52 + 1" and ne: "midDouble lo hi \<noteq> lo"
  have "midDouble lo hi = (lo + hi) div 2"
    using b by (intro midDouble_exact) simp_all
  with b ne show "midDouble lo hi < hi" by linarith
qed

theorem findLimit_terminates_witness:
  "(0::int) \<le> 0 \<and> (0::int) \<le> 255 \<and> (255::int) \<le> 2 ^ 52 + 1 \<and>
   (\<exists>r w'. findLimitDouble unreachable 2 0 255 emptyWorld = Some (r, w')) \<and>
   (\<exists>v w'. findLimitDouble (simDevice (tripAbove [100, 150, 200, 50])) 2 0 255 emptyWorld =
      Some (Inr v, w') \<and> 0 \<le> v \<and> v \<le> 255) \<and>
   midDouble 0 255 \<noteq> 0 \<and> 0 < midDouble 0 255 \<and> midDouble 0 255 < 255"
  using findLimit_terminates [of 0 255 unreachable 2 emptyWorld "tripAbove [100, 150, 200, 50]"]
  by (simp add: midDouble_0_255)

text \<open>
  C5 as stated fails beyond \<open>2^52 + 1\<close>: for \<open>lo = 2^52 + 1\<close> and \<open>hi = 2^52 + 2\<close> the sum is
  rounded up, the midpoint is \<open>hi\<close>, and with a signal that is on there the search continues
  with the same range: it never returns.
\<close>

theorem findLimit_repeats_beyond_2_52:
  "findLimitDouble (simDevice (tripAbove [0, 0, 0, 0])) 0 (2 ^ 52 + 1) (2 ^ 52 + 2) emptyWorld = None \<and>
   midDouble (2 ^ 52 + 1) (2 ^ 52 + 2) = 2 ^ 52 + 2 \<and>
   (0::int) \<le> 2 ^ 52 + 1 \<and> (2 ^ 52 + 1 :: int) \<le> 2 ^ 52 + 2"
proof -
  let ?dev = "simDevice (tripAbove [0, 0, 0, 0])"
  have "findLimitDouble ?dev 0 (2 ^ 52 + 1) (2 ^ 52 + 2) emptyWorld = None"
  proof (rule ccontr)
    assume "findLimitDouble ?dev 0 (2 ^ 52 + 1) (2 ^ 52 + 2) emptyWorld \<noteq> None"
    then obtain y where
      "findLimitDouble ?dev 0 (2 ^ 52 + 1) (2 ^ 52 + 2) emptyWorld = Some y" by blast
    from findLimitDouble_stuck [OF this, of "tripAbove [0, 0, 0, 0]"]
    show False by (simp add: simulated_simDevice midDouble_tie [simplified] tripAbove_def)
  qed
  then show ?thesis by (simp add: midDouble_tie [simplified])
qed

section \<open>Colour scaling\<close>













end
